theory Spec2Isabelle
  imports Main
begin

section \<open>Cron patterns of klasa: \<^verbatim>\<open>src/lib/util/Cron.js\<close>\<close>

text \<open>
  The class \<^verbatim>\<open>Cron\<close> turns a five-field pattern into five lists of numbers (the
  constructor, through \<^verbatim>\<open>_normalize\<close>, \<^verbatim>\<open>_parseString\<close>, \<^verbatim>\<open>_parsePart\<close> and
  \<^verbatim>\<open>_range\<close>) and searches the next date that fits them (\<^verbatim>\<open>next\<close>).

  Numbers of the pattern are natural numbers here. JavaScript numbers are doubles; on
  whole numbers below \<open>2^53\<close> the operations of the class (\<^verbatim>\<open>parseInt\<close>, comparison,
  subtraction, the floor of a quotient, addition and multiplication within \<^verbatim>\<open>_range\<close>) give
  the same results on doubles as on naturals, and the theorems on the lists of arbitrary
  patterns have the hypothesis that the numbers written in the pattern are below
  \<open>2^53\<close>. An array holds at most \<open>2^32 - 1\<close> elements. What an engine can hold in
  memory or pass to one call is not bounded here; the room on its call stack is, where a
  theorem speaks of it. Time values are integers, the milliseconds since
  1970-01-01T00:00:00Z that \<^verbatim>\<open>Date.prototype.getTime\<close> returns; a date is valid when its
  time value is at most \<open>8.64 * 10^15\<close> in absolute value, and an integer beyond stands
  for the invalid date, whose time value is \<^verbatim>\<open>NaN\<close>.
\<close>

subsection \<open>Errors\<close>

text \<open>
  \<^verbatim>\<open>Invalid_Cron_Provided\<close> is \<^verbatim>\<open>new Error('Invalid Cron Provided')\<close> of
  \<^verbatim>\<open>_parseString\<close>. \<^verbatim>\<open>TypeError\<close> is what the engine throws when a destructuring or
  an index reads from \<^verbatim>\<open>null\<close> or \<^verbatim>\<open>undefined\<close> (a part that \<^verbatim>\<open>partRegex\<close> does not
  match, a field position without an entry in \<^verbatim>\<open>allowedNum\<close>). \<^verbatim>\<open>RangeError\<close> is thrown
  by \<^verbatim>\<open>new Array(n)\<close> when \<^verbatim>\<open>n\<close> is not the length of an array, and by a call when the
  call stack is full.
\<close>

datatype error = Invalid_Cron_Provided | TypeError | RangeError

subsection \<open>Strings\<close>

text \<open>\<^verbatim>\<open>String.prototype.split\<close> with a one-character separator: the result is never empty.\<close>

fun split_on :: "char \<Rightarrow> string \<Rightarrow> string list" where
  "split_on c [] = [[]]"
| "split_on c (x # xs) =
     (if x = c then [] # split_on c xs
      else (case split_on c xs of
              [] \<Rightarrow> [[x]]
            | p # ps \<Rightarrow> (x # p) # ps))"

text \<open>\<^verbatim>\<open>Array.prototype.join\<close> with a one-character separator.\<close>

fun join_with :: "char \<Rightarrow> string list \<Rightarrow> string" where
  "join_with c [] = []"
| "join_with c [p] = p"
| "join_with c (p # q # ps) = p @ c # join_with c (q # ps)"

definition is_digit :: "char \<Rightarrow> bool" where
  "is_digit c = (c \<in> set ''0123456789'')"

text \<open>The value of a digit is its place in the row of digits.\<close>

definition digit_val :: "char \<Rightarrow> nat" where
  "digit_val c = length (takeWhile (\<lambda>d. d \<noteq> c) ''0123456789'')"

text \<open>
  \<^verbatim>\<open>parseInt\<close> on a string of decimal digits, the only strings the class passes to it.
  The code gets the double nearest to the number written: the same number when it is
  below \<open>2^53\<close>.
\<close>

definition parseInt :: "string \<Rightarrow> nat" where
  "parseInt s = foldl (\<lambda>n c. 10 * n + digit_val c) 0 s"

text \<open>The decimal notation of a number, as \<^verbatim>\<open>join\<close> writes the numbers of an array.\<close>

fun show_nat :: "nat \<Rightarrow> string" where
  "show_nat n =
     (if n < 10 then [''0123456789'' ! n]
      else show_nat (n div 10) @ [''0123456789'' ! (n mod 10)])"

declare show_nat.simps [simp del]

definition lower_char :: "char \<Rightarrow> char" where
  "lower_char c =
     (case map_of (zip ''ABCDEFGHIJKLMNOPQRSTUVWXYZ'' ''abcdefghijklmnopqrstuvwxyz'') c of
        None \<Rightarrow> c
      | Some l \<Rightarrow> l)"

definition toLowerCase :: "string \<Rightarrow> string" where
  "toLowerCase s = map lower_char s"

subsection \<open>The constants of \<^verbatim>\<open>./constants\<close>\<close>

text \<open>
  Modelled from the spec: \<^verbatim>\<open>allowedNum\<close>, the table of \<^verbatim>\<open>./constants\<close> with the bounds of
  each field, is not among the sources. The spec gives the bounds: minutes 0-59, hours
  0-23, day of month 1-31, month 1-12, day of week 0-6, by position 0 to 4. A position
  without an entry reads \<^verbatim>\<open>undefined\<close>.
\<close>

definition allowedNum :: "nat \<Rightarrow> (nat \<times> nat) option" where
  "allowedNum i =
     (if i = 0 then Some (0, 59)
      else if i = 1 then Some (0, 23)
      else if i = 2 then Some (1, 31)
      else if i = 3 then Some (1, 12)
      else if i = 4 then Some (0, 6)
      else None)"

text \<open>
  Modelled from the spec: \<^verbatim>\<open>day\<close>, the constant of \<^verbatim>\<open>./constants\<close> that \<^verbatim>\<open>next\<close> adds to
  reach the following day, is not among the sources. The spec says the search recurses
  with the reference moment plus one day; in milliseconds:
\<close>

definition day :: int where
  "day = 86400000"

text \<open>
  Modelled from the spec: \<^verbatim>\<open>partRegex\<close>, the regular expression of \<^verbatim>\<open>./constants\<close> that
  \<^verbatim>\<open>_parsePart\<close> executes on a part without commas, is not among the sources. The spec
  gives the grammar of a part: a wildcard \<^verbatim>\<open>*\<close>, a bare integer, a range \<^verbatim>\<open>min-max\<close>, each
  of them with an optional step \<^verbatim>\<open>/step\<close>. \<^verbatim>\<open>_parsePart\<close> destructures the match into
  four groups after the whole match: the wildcard, the minimum, the maximum and the step;
  a group that took no part in the match is \<^verbatim>\<open>undefined\<close> (\<open>None\<close>), and a string that
  does not match makes \<^verbatim>\<open>exec\<close> return \<^verbatim>\<open>null\<close> (\<open>None\<close>). The form \<^verbatim>\<open>min/step\<close> is
  admitted: \<^verbatim>\<open>_parsePart\<close> provides for it with the default for a missing maximum.
\<close>

record groups =
  wild :: "string option"
  min_g :: "string option"
  max_g :: "string option"
  step_g :: "string option"

definition is_digits :: "string \<Rightarrow> bool" where
  "is_digits s = (s \<noteq> [] \<and> list_all is_digit s)"

definition partRegex_exec :: "string \<Rightarrow> groups option" where
  "partRegex_exec s =
     (let body = takeWhile (\<lambda>c. c \<noteq> CHR ''/'') s;
          st = (if CHR ''/'' \<in> set s then Some (tl (dropWhile (\<lambda>c. c \<noteq> CHR ''/'') s)) else None);
          lo = takeWhile (\<lambda>c. c \<noteq> CHR ''-'') body;
          hi = (if CHR ''-'' \<in> set body then Some (tl (dropWhile (\<lambda>c. c \<noteq> CHR ''-'') body))
                else None)
      in if \<not> (case st of None \<Rightarrow> True | Some d \<Rightarrow> is_digits d) then None
         else if body = ''*'' then Some \<lparr>wild = Some ''*'', min_g = None, max_g = None, step_g = st\<rparr>
         else if is_digits lo \<and> (case hi of None \<Rightarrow> True | Some d \<Rightarrow> is_digits d)
           then Some \<lparr>wild = None, min_g = Some lo, max_g = hi, step_g = st\<rparr>
         else None)"

subsection \<open>\<^verbatim>\<open>Cron._range\<close>\<close>

text \<open>
  \<^verbatim>\<open>_range(min, max, step)\<close> swaps a reversed pair, allocates
  \<^verbatim>\<open>Math.floor((max - min) / step) + 1\<close> cells and fills cell \<open>i\<close> with \<open>min + i * step\<close>.
  \<^verbatim>\<open>new Array(n)\<close> throws a \<^verbatim>\<open>RangeError\<close> when \<open>n\<close> is not a length of an array: with
  \<open>step = 0\<close>, where the quotient is infinite or \<^verbatim>\<open>NaN\<close>, and when \<open>n\<close> is more than
  \<open>2^32 - 1 = 4294967295\<close>.
\<close>

definition range_c :: "nat \<Rightarrow> nat \<Rightarrow> nat \<Rightarrow> error + nat list" where
  "range_c mn mx step =
     (let (mn, mx) = (if mx < mn then (mx, mn) else (mn, mx))
      in if step = 0 then Inl RangeError
         else if 4294967295 < int ((mx - mn) div step + 1) then Inl RangeError
         else Inr (map (\<lambda>i. mn + i * step) [0 ..< (mx - mn) div step + 1]))"

subsection \<open>\<^verbatim>\<open>Cron._parsePart\<close>\<close>

text \<open>
  \<^verbatim>\<open>parseInt(x) || d\<close>: the number \<open>x\<close> unless it is \<^verbatim>\<open>NaN\<close> (\<open>None\<close>, from an
  \<^verbatim>\<open>undefined\<close> group) or \<open>0\<close>, both falsy, and then \<open>d\<close>.
\<close>

definition or_else :: "nat option \<Rightarrow> nat \<Rightarrow> nat" where
  "or_else x d = (case x of None \<Rightarrow> d | Some n \<Rightarrow> if n = 0 then d else n)"

text \<open>
  \<^verbatim>\<open>parseInt(max) || allowedNum[id][1]\<close>: the table is read only when \<^verbatim>\<open>parseInt(max)\<close>
  is falsy, and the read throws at a position that has no entry.
\<close>

definition or_allowed :: "nat option \<Rightarrow> nat \<Rightarrow> error + nat" where
  "or_allowed x ident =
     (let dflt = (case allowedNum ident of None \<Rightarrow> Inl TypeError | Some (lo, hi) \<Rightarrow> Inr hi)
      in case x of None \<Rightarrow> dflt | Some n \<Rightarrow> if n = 0 then dflt else Inr n)"

text \<open>
  The arguments of the call \<^verbatim>\<open>Cron._range(parseInt(min), parseInt(max) || allowedNum[id][1],
  parseInt(step) || 1)\<close> that ends \<^verbatim>\<open>_parsePart\<close>. After a wildcard, \<^verbatim>\<open>min\<close> and
  \<^verbatim>\<open>max\<close> are the two numbers of \<^verbatim>\<open>allowedNum[id]\<close>, and the destructuring of a missing
  entry throws. Without a wildcard they are the groups of the match; the minimum of an
  \<^verbatim>\<open>undefined\<close> group is \<^verbatim>\<open>NaN\<close> (\<open>None\<close>).
\<close>

definition range_args :: "groups \<Rightarrow> nat \<Rightarrow> error + (nat option \<times> nat \<times> nat)" where
  "range_args g ident =
     (if wild g \<noteq> None then
        (case allowedNum ident of
           None \<Rightarrow> Inl TypeError
         | Some (lo, hi) \<Rightarrow>
             (case or_allowed (Some hi) ident of
                Inl e \<Rightarrow> Inl e
              | Inr mx \<Rightarrow> Inr (Some lo, mx, or_else (map_option parseInt (step_g g)) 1)))
      else
        (case or_allowed (map_option parseInt (max_g g)) ident of
           Inl e \<Rightarrow> Inl e
         | Inr mx \<Rightarrow>
             Inr (map_option parseInt (min_g g), mx, or_else (map_option parseInt (step_g g)) 1)))"

text \<open>
  The part of \<^verbatim>\<open>_parsePart\<close> after the test for a comma: a part that does not match
  throws at the destructuring of \<^verbatim>\<open>null\<close>; a bare integer is returned alone; everything
  else goes to \<^verbatim>\<open>_range\<close>. A match without a wildcard always has a minimum, so the
  cases of a minimum that is \<^verbatim>\<open>NaN\<close> are never reached; in \<^verbatim>\<open>_range\<close> it would make the
  length of the array \<^verbatim>\<open>NaN\<close>.
\<close>

definition parseSimple :: "string \<Rightarrow> nat \<Rightarrow> error + nat list" where
  "parseSimple cronPart ident =
     (case partRegex_exec cronPart of
        None \<Rightarrow> Inl TypeError
      | Some g \<Rightarrow>
          if wild g = None \<and> max_g g = None \<and> step_g g = None
          then (case min_g g of None \<Rightarrow> Inl RangeError | Some m \<Rightarrow> Inr [parseInt m])
          else (case range_args g ident of
                  Inl e \<Rightarrow> Inl e
                | Inr (None, mx, step) \<Rightarrow> Inl RangeError
                | Inr (Some mn, mx, step) \<Rightarrow> range_c mn mx step))"

text \<open>
  \<^verbatim>\<open>res.push(...Cron._parsePart(part, id))\<close> over the parts, in order: the first part that
  throws ends the loop.
\<close>

fun push_all :: "(error + nat list) list \<Rightarrow> error + nat list" where
  "push_all [] = Inr []"
| "push_all (Inl e # rs) = Inl e"
| "push_all (Inr xs # rs) = (case push_all rs of Inl e \<Rightarrow> Inl e | Inr ys \<Rightarrow> Inr (xs @ ys))"

function parsePart :: "string \<Rightarrow> nat \<Rightarrow> error + nat list" where
  "parsePart cronPart ident =
     (if CHR '','' \<in> set cronPart then
        (case push_all (map (\<lambda>part. parsePart part ident) (split_on CHR '','' cronPart)) of
           Inl e \<Rightarrow> Inl e
         | Inr res \<Rightarrow> Inr (sort (remdups res)))
      else parseSimple cronPart ident)"
  by pat_completeness auto
termination
proof (relation "measure (\<lambda>(s, i). length s)")
  show "wf (measure (\<lambda>(s :: string, i :: nat). length s))" by simp
next
  fix cronPart :: string and ident :: nat and part :: string
  assume c: "CHR '','' \<in> set cronPart" and p: "part \<in> set (split_on CHR '','' cronPart)"
  have le: "length q \<le> length s" if "q \<in> set (split_on CHR '','' s)" for q s
    using that
  proof (induction s arbitrary: q)
    case Nil
    then show ?case by simp
  next
    case (Cons x xs)
    show ?case
    proof (cases "split_on CHR '','' xs")
      case Nil
      with Cons.prems show ?thesis by (auto split: if_splits)
    next
      case (Cons r rs)
      have "\<And>w. w \<in> set (r # rs) \<Longrightarrow> length w \<le> length xs"
        using Cons.IH Cons by simp
      with Cons Cons.prems show ?thesis
        by (fastforce split: if_splits)
    qed
  qed
  have lt: "length q < length s" if "CHR '','' \<in> set s" and "q \<in> set (split_on CHR '','' s)" for q s
    using that
  proof (induction s arbitrary: q)
    case Nil
    then show ?case by simp
  next
    case (Cons x xs)
    show ?case
    proof (cases "x = CHR '',''")
      case True
      with Cons.prems(2) le[of q xs] show ?thesis by (auto simp: le_imp_less_Suc)
    next
      case False
      with Cons.prems(1) have cin: "CHR '','' \<in> set xs" by simp
      show ?thesis
      proof (cases "split_on CHR '','' xs")
        case Nil
        with cin show ?thesis by (cases xs) (auto split: if_splits list.splits)
      next
        case (Cons r rs)
        with False Cons.prems(2) have "q = x # r \<or> q \<in> set rs" by auto
        then show ?thesis
        proof
          assume "q = x # r"
          moreover have "length r < length xs"
            using Cons.IH[OF cin, of r] Cons by simp
          ultimately show ?thesis by simp
        next
          assume "q \<in> set rs"
          then have "length q < length xs"
            using Cons.IH[OF cin, of q] Cons by simp
          then show ?thesis by simp
        qed
      qed
    qed
  qed
  from lt[OF c p] show "((part, ident), (cronPart, ident)) \<in> measure (\<lambda>(s, i). length s)"
    by simp
qed

declare parsePart.simps [simp del]


subsection \<open>\<^verbatim>\<open>Cron._parseString\<close>\<close>

text \<open>\<^verbatim>\<open>parts.map(Cron._parsePart)\<close>: the callback receives the part and its index.\<close>

fun sequence_err :: "(error + 'a) list \<Rightarrow> error + 'a list" where
  "sequence_err [] = Inr []"
| "sequence_err (Inl e # rs) = Inl e"
| "sequence_err (Inr x # rs) = (case sequence_err rs of Inl e \<Rightarrow> Inl e | Inr xs \<Rightarrow> Inr (x # xs))"

definition parseString :: "string \<Rightarrow> error + nat list list" where
  "parseString pattern =
     (let parts = split_on CHR '' '' pattern
      in if length parts \<noteq> 5 then Inl Invalid_Cron_Provided
         else sequence_err (map (\<lambda>(i, part). parsePart part i) (enumerate 0 parts)))"

subsection \<open>Dates\<close>

text \<open>
  The methods of \<^verbatim>\<open>Date\<close> that the class calls, after ECMAScript: a date is its time
  value \<open>t\<close>, in milliseconds since 1970-01-01T00:00:00Z; the day number is \<open>t div 86400000\<close>;
  the weekday of day 0 is Thursday (4). The year, month and day of the month of a day
  number follow the proleptic Gregorian calendar, computed over years that begin in March
  and eras of 400 years (146097 days).
\<close>

definition Day :: "int \<Rightarrow> int" where
  "Day t = t div 86400000"

definition getUTCHours :: "int \<Rightarrow> nat" where
  "getUTCHours t = nat ((t div 3600000) mod 24)"

definition getUTCMinutes :: "int \<Rightarrow> nat" where
  "getUTCMinutes t = nat ((t div 60000) mod 60)"

definition getUTCDay :: "int \<Rightarrow> nat" where
  "getUTCDay t = nat ((Day t + 4) mod 7)"

text \<open>
  Year, month (1 to 12) and day of the month (1 to 31) of a day number: the era, the
  century of the era (the fourth is one day longer), the four years of the century, the
  year of the four (the fourth is one day longer), the day of that year, counted from
  the first of March.
\<close>

definition civil_from_days :: "int \<Rightarrow> int \<times> int \<times> int" where
  "civil_from_days z =
     (let n = z + 719468;
          era = n div 146097;
          doe = n mod 146097;
          c = min 3 (doe div 36524);
          doc = doe - c * 36524;
          q = doc div 1461;
          doq = doc mod 1461;
          a = min 3 (doq div 365);
          doy = doq - a * 365;
          mp = (5 * doy + 2) div 153;
          d = doy - (153 * mp + 2) div 5 + 1;
          m = (if mp < 10 then mp + 3 else mp - 9)
      in (era * 400 + c * 100 + q * 4 + a + (if m \<le> 2 then 1 else 0), m, d))"

text \<open>The day number of day \<open>d\<close> of month \<open>m\<close> (1 to 12) of year \<open>y\<close>.\<close>

definition days_from_civil :: "int \<Rightarrow> int \<Rightarrow> int \<Rightarrow> int" where
  "days_from_civil y m d =
     (let y = (if m \<le> 2 then y - 1 else y);
          era = y div 400;
          yoe = y mod 400;
          doy = (153 * (if m > 2 then m - 3 else m + 9) + 2) div 5 + d - 1;
          doe = yoe * 365 + yoe div 4 - yoe div 100 + doy
      in era * 146097 + doe - 719468)"

definition getUTCFullYear :: "int \<Rightarrow> int" where
  "getUTCFullYear t = fst (civil_from_days (Day t))"

text \<open>\<^verbatim>\<open>getUTCMonth\<close> counts from 0 (January) to 11.\<close>

definition getUTCMonth :: "int \<Rightarrow> nat" where
  "getUTCMonth t = nat (fst (snd (civil_from_days (Day t))) - 1)"

definition getUTCDate :: "int \<Rightarrow> nat" where
  "getUTCDate t = nat (snd (snd (civil_from_days (Day t))))"

text \<open>
  A time value is that of a valid date when it is at most \<open>8.64 * 10^15\<close> in absolute
  value. \<^verbatim>\<open>TimeClip\<close> turns every other number into \<^verbatim>\<open>NaN\<close> (\<open>None\<close>); \<^verbatim>\<open>Date.UTC\<close> and
  \<^verbatim>\<open>new Date(value)\<close> apply it.
\<close>

definition time_ok :: "int \<Rightarrow> bool" where
  "time_ok t = (- 8640000000000000 \<le> t \<and> t \<le> 8640000000000000)"

definition TimeClip :: "int \<Rightarrow> int option" where
  "TimeClip t = (if time_ok t then Some t else None)"

text \<open>
  \<^verbatim>\<open>Date.UTC(year, month, date, hours, minutes)\<close>: a year from 0 to 99 stands for
  \<open>1900 + year\<close>; months beyond 11 carry into the year; the date, the hours and the
  minutes are added as they are, so values beyond their usual range carry over; the sum
  goes through \<^verbatim>\<open>TimeClip\<close>.
\<close>

definition Date_UTC :: "int \<Rightarrow> nat \<Rightarrow> nat \<Rightarrow> nat \<Rightarrow> nat \<Rightarrow> int option" where
  "Date_UTC y m d h mi =
     (let yr = (if 0 \<le> y \<and> y \<le> 99 then 1900 + y else y);
          dy = days_from_civil (yr + int m div 12) (int m mod 12 + 1) 1 + int d - 1
      in TimeClip (dy * 86400000 + int h * 3600000 + int mi * 60000))"

text \<open>
  A \<^verbatim>\<open>Date\<close> object returned by \<^verbatim>\<open>next\<close>: \<^verbatim>\<open>new Date(Date.UTC(...))\<close> is the invalid
  date when an argument of \<^verbatim>\<open>Date.UTC\<close> is \<^verbatim>\<open>undefined\<close> or when \<^verbatim>\<open>Date.UTC\<close> returns
  \<^verbatim>\<open>NaN\<close>.
\<close>

datatype jsdate = Date int | Invalid_Date

definition new_Date_UTC :: "int \<Rightarrow> nat option \<Rightarrow> nat option \<Rightarrow> jsdate" where
  "new_Date_UTC zDay hour minute =
     (case (hour, minute) of
        (Some h, Some mi) \<Rightarrow>
          (case Date_UTC (getUTCFullYear zDay) (getUTCMonth zDay) (getUTCDate zDay) h mi of
             None \<Rightarrow> Invalid_Date
           | Some tv \<Rightarrow> Date tv)
      | _ \<Rightarrow> Invalid_Date)"

subsection \<open>The class and \<^verbatim>\<open>Cron.next\<close>\<close>

record Cron =
  cron :: string
  normalized :: string
  minutes :: "nat list"
  hours :: "nat list"
  days :: "nat list"
  months :: "nat list"
  dows :: "nat list"

text \<open>\<^verbatim>\<open>Array.prototype.findIndex\<close>, with \<open>None\<close> for \<open>-1\<close>.\<close>

fun findIndex :: "('a \<Rightarrow> bool) \<Rightarrow> 'a list \<Rightarrow> nat option" where
  "findIndex p [] = None"
| "findIndex p (x # xs) = (if p x then Some 0 else map_option Suc (findIndex p xs))"

text \<open>\<^verbatim>\<open>xs[i]\<close>, with \<open>None\<close> for \<^verbatim>\<open>undefined\<close> beyond the end.\<close>

definition at :: "'a list \<Rightarrow> nat \<Rightarrow> 'a option" where
  "at xs i = (if i < length xs then Some (xs ! i) else None)"

text \<open>
  The three \<^verbatim>\<open>includes\<close> of the first line of \<^verbatim>\<open>next\<close>: the day of \<open>zDay\<close> fits the
  pattern. \<^verbatim>\<open>next\<close> goes to the following day when one of them fails.
\<close>

definition day_fits :: "Cron \<Rightarrow> int \<Rightarrow> bool" where
  "day_fits this zDay =
     (getUTCDate zDay \<in> set (days this) \<and> getUTCMonth zDay + 1 \<in> set (months this)
      \<and> getUTCDay zDay \<in> set (dows this))"

text \<open>
  One call of \<^verbatim>\<open>next(zDay, origin)\<close>: it returns a date, or it calls \<^verbatim>\<open>next\<close> again, always
  as \<^verbatim>\<open>this.next(new Date(zDay.getTime() + day), false)\<close>.
\<close>

datatype outcome = Return jsdate | Call int

text \<open>
  The body of \<^verbatim>\<open>next\<close>. On the invalid date every getter is \<^verbatim>\<open>NaN\<close>, which no list
  includes, and the date a day later is invalid again. When \<^verbatim>\<open>now\<close>, a minute after
  \<open>zDay\<close>, is invalid, no hour is at or after its hour \<^verbatim>\<open>NaN\<close>.
\<close>

definition next_body :: "Cron \<Rightarrow> int \<Rightarrow> bool \<Rightarrow> outcome" where
  "next_body this zDay origin =
     (if \<not> time_ok zDay then Call zDay
      else if \<not> day_fits this zDay then Call (zDay + day)
      else if origin then
        (case (if time_ok (zDay + 60000)
               then findIndex (\<lambda>hr. hr \<ge> getUTCHours (zDay + 60000)) (hours this)
               else None) of
           None \<Rightarrow> Call (zDay + day)
         | Some hourIndex \<Rightarrow>
             (case findIndex (\<lambda>mi. mi \<ge> getUTCMinutes (zDay + 60000)) (minutes this) of
                None \<Rightarrow>
                  (case at (hours this) (hourIndex + 1) of
                     None \<Rightarrow> Call (zDay + day)
                   | Some hour \<Rightarrow> Return (new_Date_UTC zDay (Some hour) (at (minutes this) 0)))
              | Some minuteIndex \<Rightarrow>
                  Return (new_Date_UTC zDay (at (hours this) hourIndex)
                            (at (minutes this) minuteIndex))))
      else Return (new_Date_UTC zDay (at (hours this) 0) (at (minutes this) 0)))"

text \<open>
  \<^verbatim>\<open>next(zDay, origin)\<close>. The recursion over the days has no bound: the result is \<open>None\<close>
  when it never returns.
\<close>

partial_function (option) next_date :: "Cron \<Rightarrow> int \<Rightarrow> bool \<Rightarrow> jsdate option" where
  "next_date this zDay origin =
     (case next_body this zDay origin of
        Return r \<Rightarrow> Some r
      | Call z \<Rightarrow> next_date this z False)"

declare next_date.simps [code]

text \<open>
  \<^verbatim>\<open>next(zDay, origin)\<close> on an engine whose call stack has room for \<open>n\<close> more calls: a call
  beyond them throws the \<^verbatim>\<open>RangeError\<close> of the full stack.
\<close>

fun next_on_stack :: "nat \<Rightarrow> Cron \<Rightarrow> int \<Rightarrow> bool \<Rightarrow> error + jsdate" where
  "next_on_stack 0 this zDay origin = Inl RangeError"
| "next_on_stack (Suc n) this zDay origin =
     (case next_body this zDay origin of
        Return r \<Rightarrow> Inr r
      | Call z \<Rightarrow> next_on_stack n this z False)"

subsection \<open>\<^verbatim>\<open>Cron._normalize\<close>\<close>

text \<open>
  The callback of \<^verbatim>\<open>cron.split(' ').map\<close>, on the field \<open>val\<close> at index \<open>i\<close>. \<open>now\<close>
  is the time value of \<^verbatim>\<open>new Date()\<close>. \<^verbatim>\<open>Math.floor(Math.random() * n)\<close> is a number
  from \<open>0\<close> to \<open>n - 1\<close>: \<open>rnd i mod n\<close>, for a source \<open>rnd\<close> of numbers, one for each
  index. An \<^verbatim>\<open>h\<close> at an index without an entry in \<^verbatim>\<open>allowedNum\<close> throws; a \<^verbatim>\<open>?\<close> at an
  index beyond 4 leaves the \<^verbatim>\<open>switch\<close> and is returned as it is.
\<close>

definition map_field :: "int \<Rightarrow> (nat \<Rightarrow> nat) \<Rightarrow> nat \<Rightarrow> string \<Rightarrow> error + string" where
  "map_field now rnd i val =
     (if val = ''h'' then
        (case allowedNum i of
           None \<Rightarrow> Inl TypeError
         | Some (lo, hi) \<Rightarrow> Inr (show_nat (rnd i mod (hi + 1))))
      else if val = ''?'' then
        (if i = 0 then Inr (show_nat (getUTCMinutes now))
         else if i = 1 then Inr (show_nat (getUTCHours now))
         else if i = 2 then Inr (show_nat (getUTCDate now))
         else if i = 3 then Inr (show_nat (getUTCMonth now))
         else if i = 4 then Inr (show_nat (getUTCDay now))
         else Inr val)
      else Inr val)"

text \<open>
  Modelled from the spec: \<^verbatim>\<open>tokens\<close> and \<^verbatim>\<open>tokensRegex\<close>, the table of month and weekday
  names of \<^verbatim>\<open>./constants\<close> and the regular expression that finds them, are not among the
  sources. The spec says that any substring matching a known token is replaced by its
  number. The table is a parameter here, a list of names with their numbers in the order
  in which the expression tries them; the replacement scans from the left and goes on
  after each match.
\<close>

function replace_tokens :: "(string \<times> nat) list \<Rightarrow> string \<Rightarrow> string" where
  "replace_tokens tokens [] = []"
| "replace_tokens tokens (c # cs) =
     (case find (\<lambda>(name, v). name \<noteq> [] \<and> take (length name) (c # cs) = name) tokens of
        None \<Rightarrow> c # replace_tokens tokens cs
      | Some (name, v) \<Rightarrow> show_nat v @ replace_tokens tokens (drop (length name - 1) cs))"
  by pat_completeness auto
termination
  by (relation "measure (\<lambda>(tokens, s). length s)") auto

text \<open>
  \<^verbatim>\<open>_normalize(cron)\<close>. Modelled from the spec: \<^verbatim>\<open>predefined\<close>, the table of aliases of
  \<^verbatim>\<open>./constants\<close>, is not among the sources; the spec says that a pattern equal to an alias
  is replaced by the alias's five fields. The table is a parameter, a list of aliases
  with their patterns.
\<close>

definition normalize_cron ::
  "(string \<times> string) list \<Rightarrow> (string \<times> nat) list \<Rightarrow> int \<Rightarrow> (nat \<Rightarrow> nat) \<Rightarrow> string
     \<Rightarrow> error + string" where
  "normalize_cron predefined tokens now rnd pattern =
     (case map_of predefined pattern of
        Some full \<Rightarrow> Inr full
      | None \<Rightarrow>
          (case sequence_err (map (\<lambda>(i, val). map_field now rnd i val)
                                  (enumerate 0 (split_on CHR '' '' pattern))) of
             Inl e \<Rightarrow> Inl e
           | Inr vals \<Rightarrow> Inr (replace_tokens tokens (join_with CHR '' '' vals))))"

subsection \<open>The constructor\<close>

text \<open>
  \<^verbatim>\<open>new Cron(cron)\<close>: the pattern in lower case, its normal form, and the five lists that
  \<^verbatim>\<open>_parseString\<close> returns for it. \<^verbatim>\<open>_parseString\<close> returns five lists or throws, so the
  last case of the destructuring never happens.
\<close>

definition Cron_new ::
  "(string \<times> string) list \<Rightarrow> (string \<times> nat) list \<Rightarrow> int \<Rightarrow> (nat \<Rightarrow> nat) \<Rightarrow> string
     \<Rightarrow> error + Cron" where
  "Cron_new predefined tokens now rnd pattern =
     (case normalize_cron predefined tokens now rnd (toLowerCase pattern) of
        Inl e \<Rightarrow> Inl e
      | Inr n \<Rightarrow>
          (case parseString n of
             Inl e \<Rightarrow> Inl e
           | Inr [mi, h, d, mo, dw] \<Rightarrow>
               Inr \<lparr>cron = toLowerCase pattern, normalized = n, minutes = mi, hours = h,
                    days = d, months = mo, dows = dw\<rparr>
           | Inr _ \<Rightarrow> Inl TypeError))"

subsection \<open>What the claims speak of\<close>

text \<open>
  A time value fits a pattern when it is a whole minute and its minute, hour, day of the
  month, month and weekday are in the five lists.
\<close>

definition fits :: "Cron \<Rightarrow> int \<Rightarrow> bool" where
  "fits this r =
     (r mod 60000 = 0 \<and> getUTCMinutes r \<in> set (minutes this) \<and> getUTCHours r \<in> set (hours this)
      \<and> day_fits this r)"

text \<open>
  The fields of a pattern in the words of the spec, separated by whitespace: the parts
  between runs of spaces. \<^verbatim>\<open>split(' ')\<close> cuts at every single space instead, so two
  adjacent spaces enclose an empty part.
\<close>

definition whitespace_fields :: "string \<Rightarrow> string list" where
  "whitespace_fields s = filter (\<lambda>f. f \<noteq> []) (split_on CHR '' '' s)"

text \<open>The five lists of an object, by position of their field.\<close>

definition lists_of :: "Cron \<Rightarrow> nat list list" where
  "lists_of this = [minutes this, hours this, days this, months this, dows this]"

text \<open>
  The numbers written in a part as a value or as an end of a range lie within the bounds
  \<open>lo\<close> and \<open>hi\<close>; a step is not such a number.
\<close>

definition part_in_bounds :: "nat \<Rightarrow> nat \<Rightarrow> string \<Rightarrow> bool" where
  "part_in_bounds lo hi part =
     (case partRegex_exec part of
        None \<Rightarrow> True
      | Some g \<Rightarrow>
          (case min_g g of None \<Rightarrow> True | Some m \<Rightarrow> lo \<le> parseInt m \<and> parseInt m \<le> hi)
          \<and> (case max_g g of None \<Rightarrow> True | Some m \<Rightarrow> lo \<le> parseInt m \<and> parseInt m \<le> hi))"

text \<open>Every part of a field is written within the bounds of the field's position.\<close>

definition written_in_bounds :: "nat \<Rightarrow> string \<Rightarrow> bool" where
  "written_in_bounds i field =
     (case allowedNum i of
        None \<Rightarrow> False
      | Some (lo, hi) \<Rightarrow> list_all (part_in_bounds lo hi) (split_on CHR '','' field))"

text \<open>Every number of a list lies within the bounds of the field's position.\<close>

definition in_bounds :: "nat \<Rightarrow> nat list \<Rightarrow> bool" where
  "in_bounds i xs =
     (case allowedNum i of
        None \<Rightarrow> False
      | Some (lo, hi) \<Rightarrow> list_all (\<lambda>x. lo \<le> x \<and> x \<le> hi) xs)"

text \<open>The time value of hour \<open>h\<close> and minute \<open>mi\<close> of the day with number \<open>D\<close>.\<close>

definition time_of :: "int \<Rightarrow> nat \<Rightarrow> nat \<Rightarrow> int" where
  "time_of D h mi = D * 86400000 + int h * 3600000 + int mi * 60000"

text \<open>
  A schedule as the spec describes it: each of the five lists is strictly ascending, not
  empty and within the bounds of its field.
\<close>

definition valid_schedule :: "Cron \<Rightarrow> bool" where
  "valid_schedule this =
     list_all (\<lambda>(i, xs). sorted_wrt (<) xs \<and> xs \<noteq> [] \<and> in_bounds i xs)
       (enumerate 0 (lists_of this))"

text \<open>
  The start of the search of an origin call: the reference moment plus one minute, cut
  to the whole minute, since \<^verbatim>\<open>next\<close> reads only the hour and the minute of it. It is the
  first whole minute after the reference moment.
\<close>

definition search_start :: "int \<Rightarrow> int" where
  "search_start t = t + 60000 - (t + 60000) mod 60000"

text \<open>
  The days from \<open>t\<close> to \<open>t'\<close> are days of valid dates on which every hour and minute is
  a valid date too, and their years are outside 0 to 99, the years that \<^verbatim>\<open>Date.UTC\<close> reads
  as 1900 to 1999: 0000-01-01T00:00:00Z is -62167219200000 and 0100-01-01T00:00:00Z is
  -59011459200000.
\<close>

definition in_reach :: "int \<Rightarrow> int \<Rightarrow> bool" where
  "in_reach t t' =
     (- 8640000000000000 \<le> t \<and> t' < 8640000000000000
      \<and> (t' < - 62167219200000 \<or> - 59011459200000 \<le> t))"

text \<open>
  The origin calls on which \<^verbatim>\<open>next\<close> follows the search that the spec describes. The day
  of the reference moment does not fit; or it fits, the reference moment plus one minute
  is still on that day, and the hour of that moment is in the list of hours, or no hour
  of the list is at or after it, or no minute of the list is before the minute of that
  moment.
\<close>

definition planned :: "Cron \<Rightarrow> int \<Rightarrow> bool" where
  "planned this t =
     (if day_fits this t
      then Day (t + 60000) = Day t
           \<and> (getUTCHours (t + 60000) \<in> set (hours this)
                \<or> list_all (\<lambda>h. h < getUTCHours (t + 60000)) (hours this)
                \<or> list_all (\<lambda>m. getUTCMinutes (t + 60000) \<le> m) (minutes this))
      else True)"

text \<open>
  The numbers written in a part, as the groups of its match give them, are below
  \<open>2^53 = 9007199254740992\<close>: the doubles of the code are then the naturals used here.
\<close>

definition below_2_53 :: "string option \<Rightarrow> bool" where
  "below_2_53 x = (case x of None \<Rightarrow> True | Some s \<Rightarrow> int (parseInt s) < 9007199254740992)"

definition groups_exact :: "groups \<Rightarrow> bool" where
  "groups_exact g = (below_2_53 (min_g g) \<and> below_2_53 (max_g g) \<and> below_2_53 (step_g g))"

definition field_exact :: "string \<Rightarrow> bool" where
  "field_exact field =
     list_all (\<lambda>part. case partRegex_exec part of None \<Rightarrow> True | Some g \<Rightarrow> groups_exact g)
       (split_on CHR '','' field)"

section \<open>Properties of the parser\<close>

lemma range_c_eq:
  "0 < st \<Longrightarrow> (max a b - min a b) div st + 1 \<le> 4294967295 \<Longrightarrow>
   range_c a b st = Inr (map (\<lambda>i. min a b + i * st) [0 ..< (max a b - min a b) div st + 1])"
  by (cases "b < a") (simp_all add: range_c_def min_def max_def)

lemma range_c_long:
  "0 < st \<Longrightarrow> \<not> (max a b - min a b) div st + 1 \<le> 4294967295 \<Longrightarrow>
   range_c a b st = Inl RangeError"
  by (cases "b < a") (simp_all add: range_c_def min_def max_def)

lemma range_c_swap: "range_c a b st = range_c b a st"
  by (simp add: range_c_def)

lemma range_c_props:
  assumes "range_c a b st = Inr xs"
  shows "xs \<noteq> []" and "length xs = (max a b - min a b) div st + 1"
    and "sorted_wrt (<) xs" and "\<forall>x \<in> set xs. min a b \<le> x \<and> x \<le> max a b"
    and "0 < st" and "(max a b - min a b) div st + 1 \<le> 4294967295"
proof -
  from assms show st: "0 < st"
    by (cases "st = 0") (simp_all add: range_c_def Let_def split: if_splits prod.splits)
  show le: "(max a b - min a b) div st + 1 \<le> 4294967295"
  proof (rule ccontr)
    assume "\<not> (max a b - min a b) div st + 1 \<le> 4294967295"
    from range_c_long[OF st this] assms show False by simp
  qed
  have xs: "xs = map (\<lambda>i. min a b + i * st) [0 ..< (max a b - min a b) div st + 1]"
    using assms range_c_eq[OF st le] by simp
  show "xs \<noteq> []" unfolding xs by simp
  show "length xs = (max a b - min a b) div st + 1" unfolding xs by simp
  show "sorted_wrt (<) xs" unfolding xs sorted_wrt_iff_nth_less
    using st by (simp del: upt_Suc)
  show "\<forall>x \<in> set xs. min a b \<le> x \<and> x \<le> max a b"
  proof
    fix x assume "x \<in> set xs"
    then have "\<exists>i. i < (max a b - min a b) div st + 1 \<and> x = min a b + i * st"
      unfolding xs by (auto simp del: upt_Suc)
    then obtain i where i': "i < (max a b - min a b) div st + 1" and x: "x = min a b + i * st"
      by blast
    from i' have i: "i \<le> (max a b - min a b) div st" by simp
    have "i * st \<le> ((max a b - min a b) div st) * st" using i by simp
    also have "\<dots> \<le> max a b - min a b" by simp
    finally show "min a b \<le> x \<and> x \<le> max a b" using x by simp
  qed
qed

lemma or_else_pos: "0 < or_else x 1"
  by (simp add: or_else_def split: option.split)

lemma range_args_step:
  "range_args g i = Inr (mn, mx, st) \<Longrightarrow> st = or_else (map_option parseInt (step_g g)) 1"
  by (auto simp: range_args_def split: if_splits option.splits sum.splits)

lemma partRegex_exec_min:
  "partRegex_exec part = Some g \<Longrightarrow> wild g \<noteq> None \<or> min_g g \<noteq> None"
  by (auto simp: partRegex_exec_def Let_def split: if_splits)

lemma range_args_min:
  "range_args g i = Inr (mn, mx, st) \<Longrightarrow> wild g \<noteq> None \<or> min_g g \<noteq> None \<Longrightarrow> mn \<noteq> None"
  by (auto simp: range_args_def split: if_splits option.splits sum.splits)

lemma split_on_no_sep: "p \<in> set (split_on c s) \<Longrightarrow> c \<notin> set p"
proof (induction s arbitrary: p)
  case Nil
  then show ?case by simp
next
  case (Cons x xs)
  show ?case
  proof (cases "split_on c xs")
    case Nil
    with Cons.prems show ?thesis by (auto split: if_splits)
  next
    case (Cons q qs)
    have "\<And>r. r \<in> set (q # qs) \<Longrightarrow> c \<notin> set r"
      using Cons.IH Cons by simp
    with Cons Cons.prems show ?thesis
      by (fastforce split: if_splits)
  qed
qed

lemma split_on_nonempty: "split_on c s \<noteq> []"
  by (induction s) (auto split: list.splits)

lemma parsePart_no_comma: "CHR '','' \<notin> set s \<Longrightarrow> parsePart s i = parseSimple s i"
  by (simp add: parsePart.simps)

lemma push_all_Inr:
  "push_all rs = Inr res \<Longrightarrow> \<exists>xss. rs = map Inr xss \<and> res = concat xss"
proof (induction rs arbitrary: res rule: push_all.induct)
  case 1
  then show ?case by simp
next
  case (2 e rs)
  then show ?case by simp
next
  case (3 xs rs)
  then obtain ys where ys: "push_all rs = Inr ys" and res: "res = xs @ ys"
    by (auto split: sum.splits)
  from "3.IH"[OF ys] obtain xss where "rs = map Inr xss" "ys = concat xss" by blast
  then have "Inr xs # rs = map Inr (xs # xss) \<and> res = concat (xs # xss)" using res by simp
  then show ?case by (rule exI[of _ "xs # xss"])
qed

lemma push_all_Inl:
  "push_all rs = Inl e \<Longrightarrow> Inl e \<in> set rs"
  by (induction rs rule: push_all.induct) (auto split: sum.splits)

lemma allowedNum_le: "allowedNum i = Some (lo, hi) \<Longrightarrow> lo \<le> hi \<and> 0 < hi"
  by (auto simp: allowedNum_def split: if_splits)

lemma parseSimple_props:
  assumes "parseSimple s i = Inr xs"
  shows "xs \<noteq> [] \<and> sorted_wrt (<) xs"
proof -
  from assms obtain g where g: "partRegex_exec s = Some g"
    by (auto simp: parseSimple_def split: option.splits)
  show ?thesis
  proof (cases "wild g = None \<and> max_g g = None \<and> step_g g = None")
    case True
    with assms g show ?thesis
      by (auto simp: parseSimple_def split: option.splits)
  next
    case False
    with assms g obtain mn mx st where ra: "range_args g i = Inr (Some mn, mx, st)"
      and r: "range_c mn mx st = Inr xs"
      by (auto simp: parseSimple_def split: option.splits sum.splits if_splits)
    from range_c_props(1,3)[OF r] show ?thesis by simp
  qed
qed

lemma parseSimple_bounds:
  assumes "parseSimple s i = Inr xs" and a: "allowedNum i = Some (lo, hi)"
    and w: "part_in_bounds lo hi s"
  shows "\<forall>x \<in> set xs. lo \<le> x \<and> x \<le> hi"
proof -
  from assms obtain g where g: "partRegex_exec s = Some g"
    by (auto simp: parseSimple_def split: option.splits)
  note le = allowedNum_le[OF a]
  show ?thesis
  proof (cases "wild g = None \<and> max_g g = None \<and> step_g g = None")
    case True
    with assms g show ?thesis
      by (auto simp: parseSimple_def part_in_bounds_def split: option.splits)
  next
    case False
    with assms g obtain mn mx st where ra: "range_args g i = Inr (Some mn, mx, st)"
      and r: "range_c mn mx st = Inr xs"
      by (auto simp: parseSimple_def split: option.splits sum.splits if_splits)
    have "lo \<le> mn \<and> mn \<le> hi \<and> lo \<le> mx \<and> mx \<le> hi"
      using ra a w g le
      by (auto simp: range_args_def or_allowed_def part_in_bounds_def
               split: if_splits option.splits sum.splits nat.splits)
    with range_c_props(4)[OF r] show ?thesis
      by (auto simp: min_def max_def split: if_splits)
  qed
qed

lemma set_parsePart_comma:
  assumes "parsePart s i = Inr xs" and "CHR '','' \<in> set s"
  shows "\<exists>xss. map (\<lambda>p. parseSimple p i) (split_on CHR '','' s) = map Inr xss
           \<and> xs = sort (remdups (concat xss))"
proof -
  have eq: "map (\<lambda>p. parsePart p i) (split_on CHR '','' s) = map (\<lambda>p. parseSimple p i) (split_on CHR '','' s)"
    by (rule map_cong[OF refl]) (simp add: parsePart_no_comma split_on_no_sep)
  from assms obtain res where p: "push_all (map (\<lambda>p. parseSimple p i) (split_on CHR '','' s)) = Inr res"
    and xs: "xs = sort (remdups res)"
    by (subst (asm) parsePart.simps) (auto simp: eq split: sum.splits)
  from push_all_Inr[OF p] xs show ?thesis by blast
qed

lemma parsePart_props:
  assumes "parsePart s i = Inr xs"
  shows "xs \<noteq> [] \<and> sorted_wrt (<) xs"
proof (cases "CHR '','' \<in> set s")
  case False
  with assms parseSimple_props show ?thesis by (simp add: parsePart_no_comma)
next
  case True
  from set_parsePart_comma[OF assms True] obtain xss where
    m: "map (\<lambda>p. parseSimple p i) (split_on CHR '','' s) = map Inr xss"
    and xs: "xs = sort (remdups (concat xss))" by blast
  obtain p ps where sp: "split_on CHR '','' s = p # ps"
    using split_on_nonempty[of "CHR '',''" s] by (cases "split_on CHR '','' s") auto
  with m obtain ys yss where xss: "xss = ys # yss" and "parseSimple p i = Inr ys"
    by (cases xss) auto
  then have "ys \<noteq> []" using parseSimple_props by blast
  then have "set xs \<noteq> {}" using xs xss by auto
  then have "xs \<noteq> []" by auto
  moreover have "sorted_wrt (<) xs"
    unfolding xs by (simp add: strict_sorted_iff)
  ultimately show ?thesis by simp
qed

lemma parsePart_bounds:
  assumes "parsePart s i = Inr xs" and a: "allowedNum i = Some (lo, hi)"
    and w: "list_all (part_in_bounds lo hi) (split_on CHR '','' s)"
  shows "\<forall>x \<in> set xs. lo \<le> x \<and> x \<le> hi"
proof (cases "CHR '','' \<in> set s")
  case False
  then have "split_on CHR '','' s = [s]"
    by (induction s) (auto split: list.splits)
  with w have "part_in_bounds lo hi s" by simp
  with assms False parseSimple_bounds show ?thesis by (simp add: parsePart_no_comma)
next
  case True
  from set_parsePart_comma[OF assms(1) True] obtain xss where
    m: "map (\<lambda>p. parseSimple p i) (split_on CHR '','' s) = map Inr xss"
    and xs: "xs = sort (remdups (concat xss))" by blast
  show ?thesis
  proof
    fix x assume "x \<in> set xs"
    then obtain ys where ys: "ys \<in> set xss" and x: "x \<in> set ys" using xs by auto
    then have "Inr ys \<in> set (map (\<lambda>p. parseSimple p i) (split_on CHR '','' s))"
      using m by simp
    then obtain p where p: "p \<in> set (split_on CHR '','' s)" and py: "parseSimple p i = Inr ys"
      by auto
    from w p have "part_in_bounds lo hi p" by (simp add: list_all_iff)
    from parseSimple_bounds[OF py a this] x show "lo \<le> x \<and> x \<le> hi" by simp
  qed
qed

lemma sequence_err_Inr: "sequence_err rs = Inr xs \<Longrightarrow> rs = map Inr xs"
  by (induction rs arbitrary: xs rule: sequence_err.induct) (auto split: sum.splits)

lemma sequence_err_Inl: "sequence_err rs = Inl e \<Longrightarrow> Inl e \<in> set rs"
  by (induction rs rule: sequence_err.induct) (auto split: sum.splits)

lemma parseString_Inr:
  assumes "parseString n = Inr ls"
  shows "length (split_on CHR '' '' n) = 5" and "length ls = 5"
    and "\<And>i. i < 5 \<Longrightarrow> parsePart (split_on CHR '' '' n ! i) i = Inr (ls ! i)"
proof -
  let ?parts = "split_on CHR '' '' n"
  from assms show len: "length ?parts = 5"
    by (auto simp: parseString_def Let_def split: if_splits)
  from assms len have "sequence_err (map (\<lambda>(i, part). parsePart part i) (enumerate 0 ?parts)) = Inr ls"
    by (auto simp: parseString_def Let_def split: if_splits)
  from sequence_err_Inr[OF this]
  have m: "map (\<lambda>(i, part). parsePart part i) (enumerate 0 ?parts) = map Inr ls" .
  from arg_cong[OF m, of length] len show l5: "length ls = 5" by simp
  fix i :: nat assume i: "i < 5"
  have "map (\<lambda>(i, part). parsePart part i) (enumerate 0 ?parts) ! i = map Inr ls ! i"
    using m by simp
  then show "parsePart (?parts ! i) i = Inr (ls ! i)"
    using i len l5 by (simp add: nth_enumerate_eq)
qed

lemma parseSimple_error: "parseSimple s i = Inl e \<Longrightarrow> e \<noteq> Invalid_Cron_Provided"
  by (auto simp: parseSimple_def range_args_def or_allowed_def range_c_def Let_def
           split: option.splits sum.splits if_splits prod.splits nat.splits)

lemma parsePart_error: "parsePart s i = Inl e \<Longrightarrow> e \<noteq> Invalid_Cron_Provided"
proof (cases "CHR '','' \<in> set s")
  case False
  assume "parsePart s i = Inl e"
  with False parseSimple_error show ?thesis by (simp add: parsePart_no_comma)
next
  case True
  assume a: "parsePart s i = Inl e"
  have eq: "map (\<lambda>p. parsePart p i) (split_on CHR '','' s) = map (\<lambda>p. parseSimple p i) (split_on CHR '','' s)"
    by (rule map_cong[OF refl]) (simp add: parsePart_no_comma split_on_no_sep)
  from a True have "push_all (map (\<lambda>p. parseSimple p i) (split_on CHR '','' s)) = Inl e"
    by (subst (asm) parsePart.simps) (auto simp: eq split: sum.splits)
  from push_all_Inl[OF this] obtain p where "parseSimple p i = Inl e" by auto
  then show ?thesis by (rule parseSimple_error)
qed

lemma parseString_structural:
  "(parseString n = Inl Invalid_Cron_Provided) = (length (split_on CHR '' '' n) \<noteq> 5)"
proof
  assume a: "parseString n = Inl Invalid_Cron_Provided"
  show "length (split_on CHR '' '' n) \<noteq> 5"
  proof
    assume "length (split_on CHR '' '' n) = 5"
    with a have "sequence_err (map (\<lambda>(i, part). parsePart part i) (enumerate 0 (split_on CHR '' '' n)))
                   = Inl Invalid_Cron_Provided"
      by (simp add: parseString_def)
    from sequence_err_Inl[OF this] obtain i p where "parsePart p i = Inl Invalid_Cron_Provided"
      by auto
    with parsePart_error show False by blast
  qed
next
  assume "length (split_on CHR '' '' n) \<noteq> 5"
  then show "parseString n = Inl Invalid_Cron_Provided"
    by (simp add: parseString_def)
qed

lemma Cron_new_Inr:
  assumes "Cron_new predefined tokens now rnd pattern = Inr c"
  shows "normalize_cron predefined tokens now rnd (toLowerCase pattern) = Inr (normalized c)"
    and "parseString (normalized c) = Inr (lists_of c)"
  using assms
  by (auto simp: Cron_new_def lists_of_def split: sum.splits list.splits)

lemma Cron_new_structural:
  assumes "normalize_cron predefined tokens now rnd (toLowerCase pattern) = Inr n"
  shows "(Cron_new predefined tokens now rnd pattern = Inl Invalid_Cron_Provided)
           = (parseString n = Inl Invalid_Cron_Provided)"
  using assms by (auto simp: Cron_new_def split: sum.splits list.splits)

lemma map_field_error: "map_field now rnd i val = Inl e \<Longrightarrow> e = TypeError"
  by (auto simp: map_field_def split: if_splits option.splits)

lemma normalize_error:
  assumes "normalize_cron predefined tokens now rnd pattern = Inl e"
  shows "e = TypeError"
proof -
  from assms have "sequence_err (map (\<lambda>(i, val). map_field now rnd i val)
                                  (enumerate 0 (split_on CHR '' '' pattern))) = Inl e"
    by (auto simp: normalize_cron_def split: option.splits sum.splits)
  from sequence_err_Inl[OF this] obtain i v where "map_field now rnd i v = Inl e" by auto
  then show ?thesis by (rule map_field_error)
qed

section \<open>Properties of the dates\<close>

lemma div_bounds: "0 < b \<Longrightarrow> b * (x div b) \<le> x \<and> x < b * (x div b) + (b::int)"
  using pos_mod_bound[of b x] pos_mod_sign[of b x] mult_div_mod_eq[of b x] by linarith

lemma div_eqI: "0 < b \<Longrightarrow> b * k \<le> x \<Longrightarrow> x < b * k + b \<Longrightarrow> x div b = (k::int)"
  by (rule int_div_pos_eq[of x b k "x - b * k"]) simp_all

lemma civil_from_days_inverse:
  assumes "civil_from_days z = (y, m, d)"
  shows "1 \<le> m \<and> m \<le> 12 \<and> 1 \<le> d \<and> d \<le> 31 \<and> days_from_civil y m d = z
    \<and> (- 683003 \<le> z \<longrightarrow> 100 \<le> y) \<and> (z < - 719528 \<longrightarrow> y < 0)"
proof -
  define n where "n = z + 719468"
  define era where "era = n div 146097"
  define doe where "doe = n mod 146097"
  define k where "k = doe div 36524"
  define c where "c = min 3 k"
  define doc where "doc = doe - c * 36524"
  define q where "q = doc div 1461"
  define doq where "doq = doc mod 1461"
  define j where "j = doq div 365"
  define a where "a = min 3 j"
  define doy where "doy = doq - a * 365"
  define mp where "mp = (5 * doy + 2) div 153"
  define e where "e = (153 * mp + 2) div 5"
  have n: "n = era * 146097 + doe" and doe: "0 \<le> doe" "doe < 146097"
    unfolding era_def doe_def by simp_all
  have k: "36524 * k \<le> doe" "doe < 36524 * k + 36524"
    using div_bounds[of 36524 doe] unfolding k_def by simp_all
  have k0: "0 \<le> k" using k doe by linarith
  have c: "0 \<le> c" "c \<le> 3" using k0 unfolding c_def by simp_all
  have doc: "0 \<le> doc" "doc \<le> 36524"
    using k doe k0 unfolding doc_def c_def min_def by (auto split: if_splits)
  have qb: "1461 * q \<le> doc" "doc < 1461 * q + 1461"
    using div_bounds[of 1461 doc] unfolding q_def by simp_all
  have q: "0 \<le> q" "q \<le> 24" using qb doc by linarith+
  have docq: "doc = q * 1461 + doq" and doq: "0 \<le> doq" "doq < 1461"
    unfolding q_def doq_def by simp_all
  have j: "365 * j \<le> doq" "doq < 365 * j + 365"
    using div_bounds[of 365 doq] unfolding j_def by simp_all
  have j0: "0 \<le> j" using j doq by linarith
  have a: "0 \<le> a" "a \<le> 3" using j0 unfolding a_def by simp_all
  have doy: "0 \<le> doy" "doy \<le> 365"
    using j doq j0 unfolding doy_def a_def min_def by (auto split: if_splits)
  have mpb: "153 * mp \<le> 5 * doy + 2" "5 * doy + 2 < 153 * mp + 153"
    using div_bounds[of 153 "5 * doy + 2"] unfolding mp_def by simp_all
  have mp: "0 \<le> mp" "mp \<le> 11" using mpb doy by linarith+
  have eb: "5 * e \<le> 153 * mp + 2" "153 * mp + 2 < 5 * e + 5"
    using div_bounds[of 5 "153 * mp + 2"] unfolding e_def by simp_all
  have dlo: "e \<le> doy" using eb mpb by linarith
  have dhi: "doy - e \<le> 30" using eb mpb by linarith
  have m: "m = (if mp < 10 then mp + 3 else mp - 9)"
    and d: "d = doy - e + 1"
    and y: "y = era * 400 + c * 100 + q * 4 + a + (if m \<le> 2 then 1 else 0)"
    using assms
    unfolding civil_from_days_def Let_def n_def[symmetric] era_def[symmetric] doe_def[symmetric]
      k_def[symmetric] c_def[symmetric] doc_def[symmetric] q_def[symmetric] doq_def[symmetric]
      j_def[symmetric] a_def[symmetric] doy_def[symmetric] mp_def[symmetric] e_def[symmetric]
    by auto
  have mb: "1 \<le> m" "m \<le> 12" using mp unfolding m by (simp_all split: if_splits)
  have db: "1 \<le> d" "d \<le> 31" using dlo dhi unfolding d by simp_all
  define yoe where "yoe = c * 100 + q * 4 + a"
  define Y where "Y = era * 400 + yoe"
  have Y1: "(if m \<le> 2 then y - 1 else y) = Y" unfolding y Y_def yoe_def by simp
  have yoe_b: "0 \<le> yoe" "yoe < 400" using c q a unfolding yoe_def by simp_all
  have Ydiv: "Y div 400 = era"
    by (rule div_eqI) (use yoe_b in \<open>simp_all add: Y_def\<close>)
  have Ymod: "Y mod 400 = yoe"
    using Ydiv mult_div_mod_eq[of 400 Y] unfolding Y_def by simp
  have d4: "yoe div 4 = c * 25 + q"
    by (rule div_eqI) (use a in \<open>simp_all add: yoe_def\<close>)
  have d100: "yoe div 100 = c"
    by (rule div_eqI) (use a q in \<open>simp_all add: yoe_def\<close>)
  have mp': "(if m > 2 then m - 3 else m + 9) = mp" using mp unfolding m by simp
  have "days_from_civil y m d = era * 146097 + (yoe * 365 + (c * 25 + q) - c + (e + d - 1)) - 719468"
    unfolding days_from_civil_def Let_def Y1 Ydiv Ymod d4 d100 mp' e_def by simp
  also have "\<dots> = z"
    using n docq unfolding doc_def doy_def n_def d yoe_def by simp
  finally have inv: "days_from_civil y m d = z" .
  have yb: "100 \<le> y" if z: "- 683003 \<le> z"
  proof -
    have n0: "36465 \<le> n" using z unfolding n_def by simp
    have eb: "146097 * era \<le> n" "n < 146097 * era + 146097"
      using div_bounds[of 146097 n] unfolding era_def by simp_all
    then have era0: "0 \<le> era" using n0 by linarith
    show ?thesis
    proof (cases "1 \<le> era")
      case True
      then show ?thesis using c q a unfolding y by (simp split: if_splits)
    next
      case False
      with era0 have era: "era = 0" by simp
      with n have doen: "doe = n" by simp
      show ?thesis
      proof (cases "1 \<le> k")
        case True
        then have "1 \<le> c" unfolding c_def by simp
        then show ?thesis using q a era unfolding y by (simp split: if_splits)
      next
        case False
        with k0 have k: "k = 0" by simp
        then have c0: "c = 0" unfolding c_def by simp
        then have docn: "doc = n" using doen unfolding doc_def by simp
        have docb: "doc < 36524" using \<open>doe < 36524 * k + 36524\<close> k doen docn by simp
        have q24: "q = 24" using qb q docn n0 by linarith
        have doqb: "1401 \<le> doq" "doq \<le> 1459" using docq q24 docn n0 docb by linarith+
        have j3: "j = 3" using j doqb by linarith
        then have a3: "a = 3" unfolding a_def by simp
        have "306 \<le> doy" using doqb a3 unfolding doy_def by simp
        then have "10 \<le> mp" using mpb by linarith
        then have "m \<le> 2" using mp unfolding m by simp
        then show ?thesis using era c0 q24 a3 unfolding y by simp
      qed
    qed
  qed
  have ya: "y < 0" if z: "z < - 719528"
  proof -
    have n0: "n < - 60" using z unfolding n_def by simp
    have eb: "146097 * era \<le> n" "n < 146097 * era + 146097"
      using div_bounds[of 146097 n] unfolding era_def by simp_all
    then have era0: "era \<le> - 1" using n0 by linarith
    show ?thesis
    proof (cases "era \<le> - 2")
      case True
      then show ?thesis using c q a unfolding y by (simp split: if_splits)
    next
      case False
      with era0 have era: "era = - 1" by simp
      with n have doen: "doe = n + 146097" by simp
      show ?thesis
      proof (cases "m \<le> 2")
        case False
        then show ?thesis using era c q a unfolding y by simp
      next
        case True
        then have "10 \<le> mp" using mp unfolding m by (simp split: if_splits)
        then have d306: "306 \<le> doy" using mpb by linarith
        have "c * 100 + q * 4 + a \<le> 398"
        proof (rule ccontr)
          assume "\<not> c * 100 + q * 4 + a \<le> 398"
          then have c3: "c = 3" and q24: "q = 24" and a3: "a = 3" using c q a by linarith+
          have "doe = 145731 + doy"
            using docq c3 q24 a3 unfolding doc_def doy_def by simp
          with d306 doen n0 show False by simp
        qed
        then show ?thesis using True era unfolding y by simp
      qed
    qed
  qed
  from inv yb ya mb db show ?thesis by simp
qed

lemma days_from_civil_day: "days_from_civil y m d = days_from_civil y m 1 + d - 1"
  by (simp add: days_from_civil_def Let_def)

lemma Day_ge: "- 59011459200000 \<le> t \<Longrightarrow> - 683003 \<le> Day t"
proof -
  assume "- 59011459200000 \<le> t"
  then have "(- 59011459200000) div 86400000 \<le> t div (86400000::int)"
    by (rule zdiv_mono1) simp
  then show ?thesis by (simp add: Day_def)
qed

lemma Date_UTC_of_fields:
  assumes "getUTCFullYear t < 0 \<or> 99 < getUTCFullYear t"
  shows "Date_UTC (getUTCFullYear t) (getUTCMonth t) (getUTCDate t) h mi
           = TimeClip (Day t * 86400000 + int h * 3600000 + int mi * 60000)"
proof -
  obtain y m d where civ: "civil_from_days (Day t) = (y, m, d)"
    by (cases "civil_from_days (Day t)") auto
  from civil_from_days_inverse[OF civ]
  have m: "1 \<le> m" "m \<le> 12" and d: "1 \<le> d" and inv: "days_from_civil y m d = Day t"
    by simp_all
  have yr: "getUTCFullYear t = y" and mo: "int (getUTCMonth t) = m - 1" and dt: "int (getUTCDate t) = d"
    using m d by (simp_all add: getUTCFullYear_def getUTCMonth_def getUTCDate_def civ)
  have m12: "(m - 1) div 12 = 0" "(m - 1) mod 12 + 1 = m"
    using m by (simp_all add: div_pos_pos_trivial mod_pos_pos_trivial)
  have ny: "(if 0 \<le> y \<and> y \<le> 99 then 1900 + y else y) = y" using assms yr by auto
  have "days_from_civil y m 1 + d - 1 = Day t"
    using inv days_from_civil_day[of y m d] by simp
  then show ?thesis
    unfolding Date_UTC_def Let_def yr mo dt m12 ny by simp
qed

lemma year_lt_0: "t < - 62167219200000 \<Longrightarrow> getUTCFullYear t < 0"
proof -
  assume t: "t < - 62167219200000"
  have "Day t < - 719528"
  proof (rule ccontr)
    assume "\<not> Day t < - 719528"
    then have "86400000 * (- 719528) \<le> 86400000 * Day t" by simp
    with div_bounds[of 86400000 t] t show False by (simp add: Day_def)
  qed
  moreover obtain y m d where civ: "civil_from_days (Day t) = (y, m, d)"
    by (cases "civil_from_days (Day t)") auto
  ultimately show ?thesis
    using civil_from_days_inverse[OF civ] by (simp add: getUTCFullYear_def civ)
qed

lemma year_ge_100: "- 59011459200000 \<le> t \<Longrightarrow> 100 \<le> getUTCFullYear t"
proof -
  assume t: "- 59011459200000 \<le> t"
  obtain y m d where civ: "civil_from_days (Day t) = (y, m, d)"
    by (cases "civil_from_days (Day t)") auto
  from civil_from_days_inverse[OF civ] Day_ge[OF t] show ?thesis
    by (simp add: getUTCFullYear_def civ)
qed

lemma time_of_fields:
  assumes "h \<le> 23" and "mi \<le> 59"
  shows "Day (time_of D h mi) = D" and "getUTCHours (time_of D h mi) = h"
    and "getUTCMinutes (time_of D h mi) = mi" and "time_of D h mi mod 60000 = 0"
proof -
  let ?r = "time_of D h mi"
  have 1: "?r div 86400000 = D"
    by (rule div_eqI) (use assms in \<open>simp_all add: time_of_def\<close>)
  show "Day ?r = D" using 1 by (simp add: Day_def)
  have 2: "?r div 3600000 = D * 24 + int h"
    by (rule div_eqI) (use assms in \<open>simp_all add: time_of_def\<close>)
  have "(D * 24 + int h) mod 24 = int h" using assms by (simp add: mod_pos_pos_trivial)
  then show "getUTCHours ?r = h" using 2 by (simp add: getUTCHours_def)
  have 3: "?r div 60000 = D * 1440 + int h * 60 + int mi"
    by (rule div_eqI) (use assms in \<open>simp_all add: time_of_def\<close>)
  have "(D * 1440 + int h * 60 + int mi) mod 60 = int mi"
  proof -
    have "(D * 1440 + int h * 60 + int mi) = int mi + (D * 24 + int h) * 60" by simp
    then have "(D * 1440 + int h * 60 + int mi) mod 60 = int mi mod 60"
      by (simp only: mod_mult_self1)
    then show ?thesis using assms by (simp add: mod_pos_pos_trivial)
  qed
  then show "getUTCMinutes ?r = mi" using 3 by (simp add: getUTCMinutes_def)
  have "?r = 60000 * (D * 1440 + int h * 60 + int mi)" by (simp add: time_of_def)
  then show "?r mod 60000 = 0" by (simp only: mod_mult_self1_is_0)
qed

lemma whole_minute_time_of:
  assumes "u mod 60000 = 0"
  shows "u = time_of (Day u) (getUTCHours u) (getUTCMinutes u)"
    and "getUTCHours u \<le> 23" and "getUTCMinutes u \<le> 59"
proof -
  define w where "w = u div 60000"
  define v where "v = u div 3600000"
  have u: "u = 60000 * w" using assms mult_div_mod_eq[of 60000 u] unfolding w_def by simp
  have vw: "v = w div 60" unfolding v_def u
    using zdiv_zmult2_eq[of 60000 "60000 * w" 60] by simp
  have Dv: "Day u = v div 24" unfolding Day_def v_def
    using zdiv_zmult2_eq[of 3600000 u 24] by simp
  define hh where "hh = v mod 24"
  define mm where "mm = w mod 60"
  have hb: "0 \<le> hh" "hh < 24" unfolding hh_def by simp_all
  have mb: "0 \<le> mm" "mm < 60" unfolding mm_def by simp_all
  have H: "int (getUTCHours u) = hh" unfolding getUTCHours_def v_def hh_def by simp
  have M: "int (getUTCMinutes u) = mm" unfolding getUTCMinutes_def w_def mm_def by simp
  show "getUTCHours u \<le> 23" using H hb by linarith
  show "getUTCMinutes u \<le> 59" using M mb by linarith
  have 1: "w = 60 * v + mm" using mult_div_mod_eq[of 60 w] vw unfolding mm_def by simp
  have 2: "v = 24 * Day u + hh" using mult_div_mod_eq[of 24 v] Dv unfolding hh_def by simp
  show "u = time_of (Day u) (getUTCHours u) (getUTCMinutes u)"
    unfolding time_of_def H M using u 1 2 by linarith
qed

lemma time_of_le:
  assumes "h \<le> 23" "mi \<le> 59" "h' \<le> 23" "mi' \<le> 59"
  shows "(time_of D h mi \<le> time_of D' h' mi')
           = (D < D' \<or> (D = D' \<and> (h < h' \<or> (h = h' \<and> mi \<le> mi'))))"
  using assms unfolding time_of_def by auto

section \<open>Properties of \<^verbatim>\<open>next\<close>\<close>

lemma findIndex_Some: "findIndex p xs = Some i \<Longrightarrow> i < length xs \<and> p (xs ! i) \<and> (\<forall>j<i. \<not> p (xs ! j))"
proof (induction xs arbitrary: i)
  case Nil
  then show ?case by simp
next
  case (Cons x xs)
  show ?case
  proof (cases "p x")
    case True
    with Cons.prems show ?thesis by simp
  next
    case False
    with Cons.prems obtain k where k: "findIndex p xs = Some k" and i: "i = Suc k" by auto
    from Cons.IH[OF k] False show ?thesis unfolding i
      by (auto simp: nth_Cons split: nat.splits)
  qed
qed

lemma findIndex_None: "findIndex p xs = None \<Longrightarrow> \<forall>x \<in> set xs. \<not> p x"
  by (induction xs) (auto split: if_splits)

lemma at_findIndex: "findIndex p xs = Some i \<Longrightarrow> \<exists>x. at xs i = Some x \<and> x \<in> set xs \<and> p x"
  using findIndex_Some[of p xs i] by (simp add: at_def)

lemma at_0: "xs \<noteq> [] \<Longrightarrow> at xs 0 = Some (hd xs)"
  by (cases xs) (simp_all add: at_def)

lemma Day_add: "Day (t + int k * day) = Day t + int k"
proof -
  have "(t + int k * 86400000) div 86400000 = t div 86400000 + int k"
    by simp
  then show ?thesis by (simp add: Day_def day_def)
qed

lemma day_fits_cong: "Day a = Day b \<Longrightarrow> day_fits this a = day_fits this b"
  by (simp add: day_fits_def getUTCDate_def getUTCMonth_def getUTCDay_def)

lemma new_Date_UTC_cong: "Day a = Day b \<Longrightarrow> new_Date_UTC a h mi = new_Date_UTC b h mi"
  by (simp add: new_Date_UTC_def getUTCDate_def getUTCMonth_def getUTCFullYear_def
           split: option.splits)

lemma time_ok_between:
  "- 8640000000000000 \<le> a \<Longrightarrow> a \<le> z \<Longrightarrow> z \<le> b \<Longrightarrow> b \<le> 8640000000000000 \<Longrightarrow> time_ok z"
  by (simp add: time_ok_def)

lemma Day_range:
  assumes "- 8640000000000000 \<le> z" and "z < 8640000000000000"
  shows "- 100000000 \<le> Day z" and "Day z \<le> 99999999"
proof -
  note b = div_bounds[of 86400000 z, simplified]
  show "- 100000000 \<le> Day z"
  proof (rule ccontr)
    assume "\<not> - 100000000 \<le> Day z"
    then have "86400000 * Day z + 86400000 \<le> - 8640000000000000" unfolding Day_def by simp
    with b assms(1) show False unfolding Day_def by simp
  qed
  show "Day z \<le> 99999999"
  proof (rule ccontr)
    assume "\<not> Day z \<le> 99999999"
    then have "8640000000000000 \<le> 86400000 * Day z" unfolding Day_def by simp
    with b assms(2) show False unfolding Day_def by simp
  qed
qed

lemma time_of_ok:
  assumes "- 8640000000000000 \<le> z" and "z < 8640000000000000" and "h \<le> 23" and "mi \<le> 59"
  shows "time_ok (time_of (Day z) h mi)"
  using Day_range[OF assms(1,2)] assms(3,4) by (simp add: time_ok_def time_of_def)

lemma next_date_skip:
  "time_ok d \<Longrightarrow> \<not> day_fits this d \<Longrightarrow> next_date this d origin = next_date this (d + day) False"
  by (subst next_date.simps) (simp add: next_body_def)

lemma next_date_not_origin:
  "time_ok d \<Longrightarrow> day_fits this d \<Longrightarrow> next_date this d False
     = Some (new_Date_UTC d (at (hours this) 0) (at (minutes this) 0))"
  by (subst next_date.simps) (simp add: next_body_def)

lemma next_date_search:
  assumes "day_fits this (d + int k * day)" and "\<forall>j \<in> set [0..<k]. \<not> day_fits this (d + int j * day)"
    and "- 8640000000000000 \<le> d" and "d + int k * day \<le> 8640000000000000"
  shows "next_date this d False
           = Some (new_Date_UTC (d + int k * day) (at (hours this) 0) (at (minutes this) 0))"
  using assms
proof (induction k arbitrary: d)
  case 0
  then show ?case by (simp add: next_date_not_origin time_ok_def)
next
  case (Suc k)
  from Suc.prems(2) have nf: "\<not> day_fits this d" by (auto simp del: upt_Suc dest: bspec[where x=0])
  have ok: "time_ok d" using Suc.prems(3,4) by (simp add: time_ok_def day_def)
  have eq: "\<And>j. d + day + int j * day = d + int (Suc j) * day" by (simp add: algebra_simps)
  have 3: "- 8640000000000000 \<le> d + day" using Suc.prems(3) by (simp add: day_def)
  have 4: "d + day + int k * day \<le> 8640000000000000" using Suc.prems(4) unfolding eq .
  have 1: "day_fits this (d + day + int k * day)" using Suc.prems(1) unfolding eq .
  have 2: "\<forall>j \<in> set [0..<k]. \<not> day_fits this (d + day + int j * day)"
  proof
    fix j assume "j \<in> set [0..<k]"
    then have "Suc j \<in> set [0..<Suc k]" by (simp del: upt_Suc)
    with Suc.prems(2) have "\<not> day_fits this (d + int (Suc j) * day)" by blast
    then show "\<not> day_fits this (d + day + int j * day)" unfolding eq .
  qed
  from Suc.IH[OF 1 2 3 4] next_date_skip[OF ok nf, of False] show ?case unfolding eq by simp
qed

lemma sorted_hd_Min: "sorted xs \<Longrightarrow> xs \<noteq> [] \<Longrightarrow> at xs 0 = Some (Min (set xs))"
proof -
  assume s: "sorted xs" and n: "xs \<noteq> []"
  then obtain x ys where xs: "xs = x # ys" by (cases xs) auto
  with s have "\<forall>y \<in> set xs. x \<le> y" by auto
  then have "Min (set xs) = x" using xs by (intro Min_eqI) auto
  then show ?thesis using xs by (simp add: at_def)
qed

lemma valid_scheduleD:
  assumes "valid_schedule this"
  shows "sorted_wrt (<) (hours this)" and "hours this \<noteq> []" and "\<forall>h \<in> set (hours this). h \<le> 23"
    and "sorted_wrt (<) (minutes this)" and "minutes this \<noteq> []"
    and "\<forall>m \<in> set (minutes this). m \<le> 59"
  using assms
  by (simp_all add: valid_schedule_def lists_of_def enumerate_simps in_bounds_def allowedNum_def
        list_all_iff)

lemma fits_time_of:
  assumes "day_fits this z" and "z < - 62167219200000 \<or> - 59011459200000 \<le> z"
    and "h \<in> set (hours this)" and "mi \<in> set (minutes this)" and "h \<le> 23" and "mi \<le> 59"
    and "- 8640000000000000 \<le> z" and "z < 8640000000000000"
  shows "new_Date_UTC z (Some h) (Some mi) = Date (time_of (Day z) h mi)"
    and "fits this (time_of (Day z) h mi)"
proof -
  have "getUTCFullYear z < 0 \<or> 99 < getUTCFullYear z"
    using assms(2) year_ge_100[of z] year_lt_0[of z] by auto
  moreover have "time_ok (Day z * 86400000 + int h * 3600000 + int mi * 60000)"
    using time_of_ok[OF assms(7,8,5,6)] by (simp add: time_of_def)
  ultimately show "new_Date_UTC z (Some h) (Some mi) = Date (time_of (Day z) h mi)"
    by (simp add: new_Date_UTC_def Date_UTC_of_fields time_of_def TimeClip_def)
  note f = time_of_fields[OF assms(5,6), of "Day z"]
  have "day_fits this (time_of (Day z) h mi)"
    using assms(1) day_fits_cong[OF f(1), of this] by simp
  then show "fits this (time_of (Day z) h mi)"
    using f assms(3,4) by (simp add: fits_def)
qed

lemma sorted_wrt_less_hd:
  "sorted_wrt (<) xs \<Longrightarrow> x \<in> set xs \<Longrightarrow> hd xs \<le> (x::nat)"
  by (cases xs) auto

lemma first_ge_least:
  assumes "sorted_wrt (<) xs" and "findIndex (\<lambda>x. a \<le> x) xs = Some i"
    and "x \<in> set xs" and "a \<le> (x::nat)"
  shows "xs ! i \<le> x"
proof -
  from findIndex_Some[OF assms(2)] have i: "i < length xs" and n: "\<forall>j<i. \<not> a \<le> xs ! j" by simp_all
  from assms(3) obtain j where j: "j < length xs" and x: "x = xs ! j" by (auto simp: in_set_conv_nth)
  have "\<not> j < i" using n assms(4) x by auto
  then have "i = j \<or> i < j" by auto
  then show ?thesis
    using assms(1) i j x by (auto simp: sorted_wrt_iff_nth_less dest: less_imp_le)
qed

lemma next_elem:
  assumes "sorted_wrt (<) xs" and "i < length xs" and "x \<in> set xs" and "xs ! i < (x::nat)"
  shows "Suc i < length xs \<and> xs ! Suc i \<le> x"
proof -
  from assms(3) obtain j where j: "j < length xs" and x: "x = xs ! j" by (auto simp: in_set_conv_nth)
  have "i < j"
  proof (rule ccontr)
    assume "\<not> i < j"
    then have "j = i \<or> j < i" by auto
    then have "xs ! j \<le> xs ! i"
      using assms(1,2) by (auto simp: sorted_wrt_iff_nth_less dest: less_imp_le)
    with assms(4) x show False by simp
  qed
  then have "Suc i = j \<or> Suc i < j" by auto
  then show ?thesis
    using assms(1) j x by (auto simp: sorted_wrt_iff_nth_less dest: less_imp_le)
qed

lemma search_start_facts:
  shows "t < search_start t" and "search_start t mod 60000 = 0"
    and "search_start t = time_of (Day (t + 60000)) (getUTCHours (t + 60000)) (getUTCMinutes (t + 60000))"
    and "search_start t \<le> time_of (Day t + 1) 0 0"
proof -
  define now where "now = t + 60000"
  define w where "w = now div 60000"
  define r where "r = now mod 60000"
  have nw: "now = 60000 * w + r" and r: "0 \<le> r" "r < 60000"
    unfolding w_def r_def by simp_all
  have ss: "search_start t = 60000 * w"
    unfolding search_start_def now_def[symmetric] r_def[symmetric] using nw by simp
  show "t < search_start t" unfolding ss using nw r now_def by linarith
  show wm: "search_start t mod 60000 = 0" unfolding ss by simp
  have m: "search_start t div 60000 = now div 60000" unfolding ss w_def by simp
  have h: "search_start t div 3600000 = now div 3600000"
    using zdiv_zmult2_eq[of 60 "search_start t" 60000] zdiv_zmult2_eq[of 60 now 60000] m by simp
  have d: "search_start t div 86400000 = now div 86400000"
    using zdiv_zmult2_eq[of 1440 "search_start t" 60000] zdiv_zmult2_eq[of 1440 now 60000] m by simp
  from whole_minute_time_of(1)[OF wm]
  show "search_start t = time_of (Day (t + 60000)) (getUTCHours (t + 60000)) (getUTCMinutes (t + 60000))"
    unfolding now_def[symmetric] by (simp add: Day_def getUTCHours_def getUTCMinutes_def m h d)
  have tb: "t < 86400000 * (Day t) + 86400000"
    using div_bounds[of 86400000 t] by (simp add: Day_def)
  have "w \<le> 1440 * (Day t + 1)"
  proof (rule ccontr)
    assume "\<not> w \<le> 1440 * (Day t + 1)"
    then have "1440 * Day t + 1441 \<le> w" by simp
    then have "86400000 * Day t + 86460000 \<le> 60000 * w" by simp
    with nw r now_def tb show False by simp
  qed
  then show "search_start t \<le> time_of (Day t + 1) 0 0"
    unfolding ss time_of_def by simp
qed

lemma Day_mono: "a \<le> b \<Longrightarrow> Day a \<le> Day b"
  unfolding Day_def by (rule zdiv_mono1) simp_all

lemma in_reachD:
  assumes "in_reach t t'" and "t \<le> z" and "z \<le> t'"
  shows "- 8640000000000000 \<le> z" and "z < 8640000000000000" and "time_ok z"
    and "z < - 62167219200000 \<or> - 59011459200000 \<le> z"
  using assms by (auto simp: in_reach_def time_ok_def)

lemma later_day:
  assumes v: "valid_schedule this" and t: "in_reach t (t + int (Suc k) * day)"
    and l: "day_fits this (t + int (Suc k) * day)"
  shows "\<exists>R. next_date this (t + day) False = Some (Date R) \<and> fits this R
           \<and> time_of (Day t + 1) 0 0 \<le> R \<and> (\<forall>u. fits this u \<and> Day t < Day u \<longrightarrow> R \<le> u)"
proof -
  note vd = valid_scheduleD[OF v]
  define P where "P = (\<lambda>j. day_fits this (t + day + int j * day))"
  define K where "K = (LEAST j. P j)"
  have eq: "t + int (Suc k) * day = t + day + int k * day" by (simp add: algebra_simps)
  have "P k" using l unfolding P_def eq .
  then have PK: "P K" and least: "\<And>j. P j \<Longrightarrow> K \<le> j"
    unfolding K_def by (auto intro: LeastI Least_le)
  have Kk: "K \<le> k" using least[OF \<open>P k\<close>] .
  have "\<not> P j" if "j < K" for j using least[of j] that by auto
  then have notP: "\<forall>j \<in> set [0..<K]. \<not> day_fits this (t + day + int j * day)"
    unfolding P_def by (simp del: upt_Suc)
  define z where "z = t + day + int K * day"
  have fz: "day_fits this z" using PK unfolding P_def z_def .
  have zl: "t \<le> z" unfolding z_def day_def by simp
  have "int K * day \<le> int k * day" using Kk by (simp add: day_def)
  then have zu: "z \<le> t + int (Suc k) * day" unfolding z_def eq by simp
  note rz = in_reachD[OF t zl zu]
  have tl: "- 8640000000000000 \<le> t + day" using t by (simp add: in_reach_def day_def)
  have Dz: "Day z = Day t + 1 + int K"
    using Day_add[of "t + day" K] Day_add[of t 1] unfolding z_def by simp
  define h0 where "h0 = hd (hours this)"
  define m0 where "m0 = hd (minutes this)"
  have h0: "h0 \<in> set (hours this)" "h0 \<le> 23" and m0: "m0 \<in> set (minutes this)" "m0 \<le> 59"
    using vd unfolding h0_def m0_def by simp_all
  define R where "R = time_of (Day z) h0 m0"
  have "next_date this (t + day) False
          = Some (new_Date_UTC z (at (hours this) 0) (at (minutes this) 0))"
    using next_date_search[OF fz[unfolded z_def] notP tl] rz(2) unfolding z_def by simp
  then have 1: "next_date this (t + day) False = Some (Date R)"
    using fits_time_of(1)[OF fz rz(4) h0(1) m0(1) h0(2) m0(2) rz(1,2)] at_0[OF vd(2)] at_0[OF vd(5)]
    unfolding R_def h0_def m0_def by simp
  have 2: "fits this R"
    unfolding R_def using fits_time_of(2)[OF fz rz(4) h0(1) m0(1) h0(2) m0(2) rz(1,2)] .
  have 3: "time_of (Day t + 1) 0 0 \<le> R"
    unfolding R_def using time_of_le[of 0 0 h0 m0 "Day t + 1" "Day z"] h0 m0 Dz by auto
  have 4: "R \<le> u" if u: "fits this u" and D: "Day t < Day u" for u
  proof -
    from u have wm: "u mod 60000 = 0" and hu: "getUTCHours u \<in> set (hours this)"
      and mu: "getUTCMinutes u \<in> set (minutes this)" and du: "day_fits this u"
      by (simp_all add: fits_def)
    define j where "j = nat (Day u - Day t - 1)"
    have Dj: "Day u = Day (t + day + int j * day)"
      using D Day_add[of "t + day" j] Day_add[of t 1] unfolding j_def by simp
    have "P j" unfolding P_def using du day_fits_cong[OF Dj, of this] by simp
    then have "K \<le> j" by (rule least)
    then have DD: "Day z \<le> Day u" using Dz D unfolding j_def by linarith
    have hle: "h0 \<le> getUTCHours u" unfolding h0_def using sorted_wrt_less_hd[OF vd(1) hu] .
    have mle: "m0 \<le> getUTCMinutes u" unfolding m0_def using sorted_wrt_less_hd[OF vd(4) mu] .
    have "R \<le> time_of (Day u) (getUTCHours u) (getUTCMinutes u)"
      unfolding R_def
      using time_of_le[OF h0(2) m0(2) whole_minute_time_of(2,3)[OF wm], of "Day z" "Day u"]
        DD hle mle by auto
    then show ?thesis using whole_minute_time_of(1)[OF wm] by simp
  qed
  from 1 2 3 4 show ?thesis by blast
qed

lemma getUTCHours_le: "getUTCHours t \<le> 23"
proof -
  have "(t div 3600000) mod 24 < 24" by simp
  then show ?thesis unfolding getUTCHours_def by linarith
qed

lemma getUTCMinutes_le: "getUTCMinutes t \<le> 59"
proof -
  have "(t div 60000) mod 60 < 60" by simp
  then show ?thesis unfolding getUTCMinutes_def by linarith
qed

lemma fits_after_start:
  assumes "fits this u" and "search_start t \<le> u"
  shows "Day t \<le> Day u"
    and "Day u = Day (t + 60000) \<Longrightarrow>
          getUTCHours (t + 60000) < getUTCHours u
          \<or> (getUTCHours (t + 60000) = getUTCHours u \<and> getUTCMinutes (t + 60000) \<le> getUTCMinutes u)"
proof -
  from assms(1) have wm: "u mod 60000 = 0" by (simp add: fits_def)
  note ss = search_start_facts[of t]
  show "Day t \<le> Day u" using ss(1) assms(2) by (intro Day_mono) simp
  assume D: "Day u = Day (t + 60000)"
  have "time_of (Day (t + 60000)) (getUTCHours (t + 60000)) (getUTCMinutes (t + 60000))
          \<le> time_of (Day u) (getUTCHours u) (getUTCMinutes u)"
    using assms(2) whole_minute_time_of(1)[OF wm] ss(3) by simp
  then show "getUTCHours (t + 60000) < getUTCHours u
          \<or> (getUTCHours (t + 60000) = getUTCHours u \<and> getUTCMinutes (t + 60000) \<le> getUTCMinutes u)"
    using time_of_le[OF getUTCHours_le getUTCMinutes_le getUTCHours_le getUTCMinutes_le,
        of "Day (t + 60000)" "t + 60000" "t + 60000" "Day u" u u] D
    by simp
qed

lemma time_of_le_fits:
  assumes "fits this u" and "h \<le> 23" and "mi \<le> 59"
    and "D < Day u \<or> (D = Day u \<and> (h < getUTCHours u \<or> (h = getUTCHours u \<and> mi \<le> getUTCMinutes u)))"
  shows "time_of D h mi \<le> u"
proof -
  from assms(1) have wm: "u mod 60000 = 0" by (simp add: fits_def)
  have "time_of D h mi \<le> time_of (Day u) (getUTCHours u) (getUTCMinutes u)"
    using time_of_le[OF assms(2,3) getUTCHours_le getUTCMinutes_le, of D "Day u" u u] assms(4)
    by simp
  then show ?thesis using whole_minute_time_of(1)[OF wm] by simp
qed

lemma next_body_cases:
  "time_ok z \<Longrightarrow> (\<exists>r. next_body this z origin = Return r) \<or> next_body this z origin = Call (z + day)"
  by (simp add: next_body_def split: option.splits)

lemma next_on_stack_sound:
  "next_on_stack n this z origin = Inr r \<Longrightarrow> next_date this z origin = Some r"
proof (induction n arbitrary: z origin)
  case 0
  then show ?case by simp
next
  case (Suc n)
  show ?case
  proof (cases "next_body this z origin")
    case (Return r')
    with Suc.prems show ?thesis by (subst next_date.simps) simp
  next
    case (Call z')
    with Suc.prems have "next_on_stack n this z' False = Inr r" by simp
    from Suc.IH[OF this] Call show ?thesis by (subst next_date.simps) simp
  qed
qed

lemma next_on_stack_complete:
  assumes "next_date this z origin = Some r"
  shows "\<exists>n. next_on_stack n this z origin = Inr r"
  using assms
proof (induction rule: next_date.raw_induct[rotated 1, consumes 1])
  case (1 next_date this z origin r)
  show ?case
  proof (cases "next_body this z origin")
    case (Return r')
    with "1.hyps" have "next_on_stack (Suc 0) this z origin = Inr r" by simp
    then show ?thesis by blast
  next
    case (Call z')
    with "1.hyps" have "next_date this z' False = Some r" by simp
    from "1.IH"[OF this] obtain n where "next_on_stack n this z' False = Inr r" by blast
    with Call have "next_on_stack (Suc n) this z origin = Inr r" by simp
    then show ?thesis by blast
  qed
qed

lemma next_on_stack_more:
  "next_on_stack n this z origin = Inr r \<Longrightarrow> n \<le> m \<Longrightarrow> next_on_stack m this z origin = Inr r"
proof (induction n arbitrary: m z origin)
  case 0
  then show ?case by simp
next
  case (Suc n)
  from Suc.prems(2) obtain m' where m: "m = Suc m'" and le: "n \<le> m'" by (cases m) auto
  show ?case
  proof (cases "next_body this z origin")
    case (Return r')
    with Suc.prems(1) show ?thesis unfolding m by simp
  next
    case (Call z')
    with Suc.prems(1) have "next_on_stack n this z' False = Inr r" by simp
    from Suc.IH[OF this le] Call show ?thesis unfolding m by simp
  qed
qed

lemma returns_on_stack:
  assumes "day_fits this (z + int k * day)"
    and "- 8640000000000000 \<le> z" and "z + int k * day \<le> 8640000000000000"
  shows "\<exists>r. next_on_stack (Suc k) this z False = Inr r"
  using assms
proof (induction k arbitrary: z)
  case 0
  then have "time_ok z" by (simp add: time_ok_def)
  with 0 show ?case by (simp add: next_body_def)
next
  case (Suc k)
  have ok: "time_ok z" using Suc.prems(2,3) by (simp add: time_ok_def day_def)
  have eq: "z + day + int k * day = z + int (Suc k) * day" by (simp add: algebra_simps)
  from next_body_cases[OF ok, of this False] show ?case
  proof
    assume "\<exists>r. next_body this z False = Return r"
    then show ?thesis by auto
  next
    assume c: "next_body this z False = Call (z + day)"
    have "\<exists>r. next_on_stack (Suc k) this (z + day) False = Inr r"
      using Suc.prems by (intro Suc.IH) (simp_all only: eq, simp add: day_def)
    with c show ?thesis by simp
  qed
qed

lemma returns_on_stack_origin:
  assumes "day_fits this (z + int (Suc k) * day)"
    and "- 8640000000000000 \<le> z" and "z + int (Suc k) * day \<le> 8640000000000000"
  shows "\<exists>r. next_on_stack (Suc (Suc k)) this z origin = Inr r"
proof -
  have ok: "time_ok z" using assms(2,3) by (simp add: time_ok_def day_def)
  have eq: "z + day + int k * day = z + int (Suc k) * day" by (simp add: algebra_simps)
  from next_body_cases[OF ok, of this origin] show ?thesis
  proof
    assume "\<exists>r. next_body this z origin = Return r"
    then show ?thesis by auto
  next
    assume c: "next_body this z origin = Call (z + day)"
    have "\<exists>r. next_on_stack (Suc k) this (z + day) False = Inr r"
      using assms by (intro returns_on_stack) (simp_all only: eq, simp add: day_def)
    with c show ?thesis by simp
  qed
qed

lemma never_on_stack:
  assumes "\<And>z. time_ok z \<Longrightarrow> \<not> day_fits this z"
  shows "next_on_stack n this z origin = Inl RangeError"
proof (induction n arbitrary: z origin)
  case 0
  show ?case by simp
next
  case (Suc n)
  have "\<exists>z'. next_body this z origin = Call z'"
    using assms[of z] by (simp add: next_body_def)
  with Suc.IH show ?case by auto
qed

lemma never_returns:
  assumes "\<And>z. time_ok z \<Longrightarrow> \<not> day_fits this z"
  shows "next_date this z origin = None"
proof (cases "next_date this z origin")
  case None
  then show ?thesis .
next
  case (Some r)
  from next_on_stack_complete[OF Some] never_on_stack[OF assms] show ?thesis by fastforce
qed

lemma invalid_on_stack: "\<not> time_ok z \<Longrightarrow> next_on_stack n this z origin = Inl RangeError"
proof (induction n arbitrary: origin)
  case 0
  show ?case by simp
next
  case (Suc n)
  then show ?case by (simp add: next_body_def)
qed

section \<open>The claims on single patterns\<close>

text \<open>
  The patterns below hold no alias, no token and no placeholder, so the two tables, the
  clock and the random source of the constructor play no part: the tables are empty, the
  clock is at 0 and the source gives 0.
\<close>

text \<open>
  C8: for the pattern \<^verbatim>\<open>0 0 * * *\<close> and the reference moment 2024-01-01T00:00:00Z
  (1704067200000), an origin call of \<^verbatim>\<open>next\<close> returns 2024-01-02T00:00:00Z
  (1704153600000).
\<close>

theorem midnight_daily_next:
  "Cron_new [] [] 0 (\<lambda>i. 0) ''0 0 * * *'' =
     Inr \<lparr>cron = ''0 0 * * *'', normalized = ''0 0 * * *'', minutes = [0], hours = [0],
          days = [1..<32], months = [1..<13], dows = [0..<7]\<rparr>
   \<and> next_date \<lparr>cron = ''0 0 * * *'', normalized = ''0 0 * * *'', minutes = [0], hours = [0],
          days = [1..<32], months = [1..<13], dows = [0..<7]\<rparr> 1704067200000 True
       = Some (Date 1704153600000)"
  by code_simp

text \<open>
  C3, at a failing input: the pattern \<^verbatim>\<open>0,30 14 * * *\<close> and the reference moment
  2024-01-01T10:10:00Z (1704103800000). The day fits; the first hour of the list that is
  not before 10, the hour of the reference moment plus one minute, is 14, later than 10;
  the smallest minute of the list is 0. \<^verbatim>\<open>next\<close> returns 14:30 of that day
  (1704119400000) and not 14:00 (1704117600000): the minute is filtered by the minute of
  the reference moment, 11, whatever the hour found.
\<close>

theorem later_hour_minute_filtered:
  "Cron_new [] [] 0 (\<lambda>i. 0) ''0,30 14 * * *'' =
     Inr \<lparr>cron = ''0,30 14 * * *'', normalized = ''0,30 14 * * *'', minutes = [0, 30],
          hours = [14], days = [1..<32], months = [1..<13], dows = [0..<7]\<rparr>
   \<and> day_fits \<lparr>cron = ''0,30 14 * * *'', normalized = ''0,30 14 * * *'', minutes = [0, 30],
          hours = [14], days = [1..<32], months = [1..<13], dows = [0..<7]\<rparr> 1704103800000
   \<and> getUTCHours (1704103800000 + 60000) = 10
   \<and> findIndex (\<lambda>hr. hr \<ge> getUTCHours (1704103800000 + 60000)) [14] = Some 0
   \<and> next_date \<lparr>cron = ''0,30 14 * * *'', normalized = ''0,30 14 * * *'', minutes = [0, 30],
          hours = [14], days = [1..<32], months = [1..<13], dows = [0..<7]\<rparr> 1704103800000 True
       = Some (Date 1704119400000)
   \<and> getUTCHours 1704119400000 = 14 \<and> getUTCMinutes 1704119400000 = 30
   \<and> Date_UTC 2024 0 1 14 0 = Some 1704117600000"
  by code_simp

text \<open>
  C5, at a failing input: in the minute field the reversed range \<^verbatim>\<open>5-0\<close> gives 5 to 59
  and the range \<^verbatim>\<open>0-5\<close> gives 0 to 5. The maximum 0 of \<^verbatim>\<open>5-0\<close> is falsy, so
  \<^verbatim>\<open>parseInt(max) || allowedNum[id][1]\<close> replaces it by 59 before \<^verbatim>\<open>_range\<close> can swap.
\<close>

theorem reversed_range_to_zero:
  "parsePart ''5-0'' 0 = Inr [5..<60] \<and> parsePart ''0-5'' 0 = Inr [0, 1, 2, 3, 4, 5]"
  by code_simp

text \<open>
  C6, at a failing input: in the minute field the stepped range \<^verbatim>\<open>0-0/5\<close>, with
  \<open>min = max = 0\<close> and step 5, gives the twelve numbers 0, 5, ..., 55 and not the one
  number 0: the maximum 0 is replaced by 59, as for C5.
\<close>

theorem stepped_range_to_zero:
  "parsePart ''0-0/5'' 0 = Inr [0, 5, 10, 15, 20, 25, 30, 35, 40, 45, 50, 55]"
  by code_simp

text \<open>
  C7, at a failing input: on 2024-01-15T10:30:00Z (1705314600000), a Monday in January,
  the placeholder \<^verbatim>\<open>?\<close> at position 3 becomes \<^verbatim>\<open>0\<close>, the month as \<^verbatim>\<open>getUTCMonth\<close>
  counts it, and not \<^verbatim>\<open>1\<close>; the bounds of the month field are 1 and 12, and \<^verbatim>\<open>next\<close>
  compares the list of months with \<^verbatim>\<open>getUTCMonth() + 1\<close>. The other four positions
  get the minute, the hour, the day of the month and the weekday.
\<close>

theorem placeholder_month_from_zero:
  "map_field 1705314600000 (\<lambda>i. 0) 3 ''?'' = Inr ''0''
   \<and> allowedNum 3 = Some (1, 12)
   \<and> normalize_cron [] [] 1705314600000 (\<lambda>i. 0) ''? ? ? ? ?'' = Inr ''30 10 15 0 1''
   \<and> Date_UTC 2024 0 15 10 30 = Some 1705314600000"
  by code_simp

section \<open>The claims on the parser\<close>

text \<open>
  C10, as stated, is false: the part \<^verbatim>\<open>0-5000000000\<close> is matched by \<^verbatim>\<open>partRegex\<close> and the
  step passed to \<^verbatim>\<open>_range\<close> is 1, but the number of elements, 5000000001, is more than an
  array can hold, so \<^verbatim>\<open>new Array\<close> throws a \<^verbatim>\<open>RangeError\<close> and \<^verbatim>\<open>_range\<close> returns no list.
  Nothing in the class compares the numbers of a part with the bounds of its field.
\<close>

theorem long_range_throws:
  "partRegex_exec ''0-5000000000'' =
     Some \<lparr>wild = None, min_g = Some ''0'', max_g = Some ''5000000000'', step_g = None\<rparr>
   \<and> range_args \<lparr>wild = None, min_g = Some ''0'', max_g = Some ''5000000000'', step_g = None\<rparr> 0
       = Inr (Some 0, 5000000000, 1)
   \<and> range_c 0 5000000000 1 = Inl RangeError
   \<and> parsePart ''0-5000000000'' 0 = Inl RangeError"
proof -
  have g: "partRegex_exec ''0-5000000000'' =
     Some \<lparr>wild = None, min_g = Some ''0'', max_g = Some ''5000000000'', step_g = None\<rparr>"
    by code_simp
  have ra: "range_args \<lparr>wild = None, min_g = Some ''0'', max_g = Some ''5000000000'', step_g = None\<rparr> 0
       = Inr (Some 0, 5000000000, 1)"
    by (simp add: range_args_def or_allowed_def or_else_def parseInt_def digit_val_def)
  have r: "range_c 0 5000000000 1 = Inl RangeError"
    unfolding range_c_def by simp
  have pp: "parsePart ''0-5000000000'' 0 = Inl RangeError"
    using r by (simp add: parsePart.simps parseSimple_def g ra)
  from g ra r pp show ?thesis by (intro conjI)
qed

text \<open>
  C10, amended: for every part that \<^verbatim>\<open>partRegex\<close> matches, with groups \<open>g\<close> whose
  numbers are below \<open>2^53\<close>, the step that \<^verbatim>\<open>_parsePart\<close> passes to \<^verbatim>\<open>_range\<close> is at
  least 1: it is 1 when the step is omitted or parses to 0, and the written step
  otherwise. So \<^verbatim>\<open>_range\<close> is never called with step 0 on a matched part: its minimum is
  a number and its number of elements, \<open>(max - min) div step + 1\<close> after the swap of a
  reversed pair, is defined. When that number is at most \<open>2^32 - 1\<close>, \<^verbatim>\<open>_range\<close> returns
  a list, not empty, of that many numbers; when it is more, \<^verbatim>\<open>new Array\<close> throws a
  \<^verbatim>\<open>RangeError\<close>.
\<close>

theorem range_step_at_least_one:
  assumes "partRegex_exec part = Some g" and "groups_exact g"
    and "range_args g i = Inr (mn, mx, st)"
  shows "1 \<le> st
    \<and> st = (case step_g g of None \<Rightarrow> 1 | Some s \<Rightarrow> if parseInt s = 0 then 1 else parseInt s)
    \<and> (\<exists>lo. mn = Some lo
          \<and> (if (max lo mx - min lo mx) div st + 1 \<le> 4294967295
              then \<exists>xs. range_c lo mx st = Inr xs \<and> xs \<noteq> []
                     \<and> length xs = (max lo mx - min lo mx) div st + 1
              else range_c lo mx st = Inl RangeError))"
proof -
  have st: "st = or_else (map_option parseInt (step_g g)) 1"
    using assms(3) by (rule range_args_step)
  then have pos: "0 < st" using or_else_pos by simp
  from range_args_min[OF assms(3) partRegex_exec_min[OF assms(1)]]
  obtain lo where lo: "mn = Some lo" by auto
  have "if (max lo mx - min lo mx) div st + 1 \<le> 4294967295
              then \<exists>xs. range_c lo mx st = Inr xs \<and> xs \<noteq> []
                     \<and> length xs = (max lo mx - min lo mx) div st + 1
              else range_c lo mx st = Inl RangeError"
  proof (cases "(max lo mx - min lo mx) div st + 1 \<le> 4294967295")
    case True
    from range_c_eq[OF pos True] obtain xs where xs: "range_c lo mx st = Inr xs" by blast
    from range_c_props(1,2)[OF xs] xs True show ?thesis by auto
  next
    case False
    from range_c_long[OF pos False] False show ?thesis by simp
  qed
  with lo have "\<exists>lo. mn = Some lo
          \<and> (if (max lo mx - min lo mx) div st + 1 \<le> 4294967295
              then \<exists>xs. range_c lo mx st = Inr xs \<and> xs \<noteq> []
                     \<and> length xs = (max lo mx - min lo mx) div st + 1
              else range_c lo mx st = Inl RangeError)" by blast
  moreover have "st = (case step_g g of None \<Rightarrow> 1 | Some s \<Rightarrow> if parseInt s = 0 then 1 else parseInt s)"
    unfolding st by (simp add: or_else_def split: option.split)
  ultimately show ?thesis using pos by simp
qed

theorem range_step_at_least_one_witness:
  "partRegex_exec ''10-20/0'' =
     Some \<lparr>wild = None, min_g = Some ''10'', max_g = Some ''20'', step_g = Some ''0''\<rparr>
   \<and> groups_exact \<lparr>wild = None, min_g = Some ''10'', max_g = Some ''20'', step_g = Some ''0''\<rparr>
   \<and> range_args \<lparr>wild = None, min_g = Some ''10'', max_g = Some ''20'', step_g = Some ''0''\<rparr> 0
       = Inr (Some 10, 20, 1)
   \<and> (\<exists>xs. range_c 10 20 1 = Inr xs \<and> xs \<noteq> [] \<and> length xs = 11)"
proof -
  have h1: "partRegex_exec ''10-20/0'' =
     Some \<lparr>wild = None, min_g = Some ''10'', max_g = Some ''20'', step_g = Some ''0''\<rparr>"
    by code_simp
  have h2: "groups_exact \<lparr>wild = None, min_g = Some ''10'', max_g = Some ''20'', step_g = Some ''0''\<rparr>"
    by code_simp
  have h3: "range_args \<lparr>wild = None, min_g = Some ''10'', max_g = Some ''20'', step_g = Some ''0''\<rparr> 0
       = Inr (Some 10, 20, 1)"
    by code_simp
  from range_step_at_least_one[OF h1 h2 h3]
  obtain lo where lo: "Some (10::nat) = Some lo"
    and r: "if (max lo 20 - min lo 20) div 1 + 1 \<le> 4294967295
            then \<exists>xs. range_c lo 20 1 = Inr xs \<and> xs \<noteq> []
                   \<and> length xs = (max lo 20 - min lo 20) div 1 + 1
            else range_c lo 20 1 = Inl RangeError"
    by blast
  from lo have "lo = 10" by simp
  with r have "\<exists>xs. range_c 10 20 1 = Inr xs \<and> xs \<noteq> [] \<and> length xs = 11" by simp
  with h1 h2 h3 show ?thesis by (intro conjI)
qed

text \<open>
  C2, as stated, is false: the pattern \<^verbatim>\<open>99 0 * * 0\<close> is accepted and its list of minutes
  is \<open>[99]\<close>, beyond the bounds 0 and 59 of the minute field. Nothing in the class
  compares a parsed number with \<^verbatim>\<open>allowedNum\<close>.
\<close>

theorem out_of_bounds_minute:
  "Cron_new [] [] 0 (\<lambda>i. 0) ''99 0 * * 0'' =
     Inr \<lparr>cron = ''99 0 * * 0'', normalized = ''99 0 * * 0'', minutes = [99], hours = [0],
          days = [1..<32], months = [1..<13], dows = [0]\<rparr>
   \<and> allowedNum 0 = Some (0, 59) \<and> \<not> in_bounds 0 [99]"
  by code_simp

text \<open>
  C2, amended: for every pattern that the constructor accepts and each of its five
  fields in which the numbers written in the normal form are below \<open>2^53\<close>, the list of
  the field is strictly ascending, free of duplicates and not empty; and its numbers lie
  within the bounds of the field when the numbers written in that field of the normal
  form, as values and as ends of ranges, do.
\<close>

theorem parsed_lists_ascending:
  assumes "Cron_new predefined tokens now rnd pattern = Inr c" and "i < 5"
    and "field_exact (split_on CHR '' '' (normalized c) ! i)"
  shows "sorted_wrt (<) (lists_of c ! i) \<and> distinct (lists_of c ! i) \<and> lists_of c ! i \<noteq> []
    \<and> (written_in_bounds i (split_on CHR '' '' (normalized c) ! i) \<longrightarrow> in_bounds i (lists_of c ! i))"
proof -
  let ?xs = "lists_of c ! i" and ?f = "split_on CHR '' '' (normalized c) ! i"
  have p: "parsePart ?f i = Inr ?xs"
    using parseString_Inr(3)[OF Cron_new_Inr(2)[OF assms(1)] assms(2)] .
  from parsePart_props[OF p] have 1: "?xs \<noteq> []" and 2: "sorted_wrt (<) ?xs" by simp_all
  from 2 have 3: "distinct ?xs" using strict_sorted_iff by blast
  have 4: "in_bounds i ?xs" if w: "written_in_bounds i ?f"
  proof -
    from w obtain lo hi where a: "allowedNum i = Some (lo, hi)"
      and l: "list_all (part_in_bounds lo hi) (split_on CHR '','' ?f)"
      by (auto simp: written_in_bounds_def split: option.splits)
    from parsePart_bounds[OF p a l] a show ?thesis
      by (simp add: in_bounds_def list_all_iff)
  qed
  from 1 2 3 4 show ?thesis by blast
qed

theorem parsed_lists_ascending_witness:
  "Cron_new [] [] 0 (\<lambda>i. 0) ''*/15 0 1,15 * 1-5'' =
     Inr \<lparr>cron = ''*/15 0 1,15 * 1-5'', normalized = ''*/15 0 1,15 * 1-5'',
          minutes = [0, 15, 30, 45], hours = [0], days = [1, 15], months = [1..<13],
          dows = [1, 2, 3, 4, 5]\<rparr>
   \<and> (2::nat) < 5 \<and> field_exact ''1,15'' \<and> written_in_bounds 2 ''1,15''
   \<and> sorted_wrt (<) [1, 15::nat] \<and> distinct [1, 15::nat] \<and> in_bounds 2 [1, 15]"
proof -
  let ?c = "\<lparr>cron = ''*/15 0 1,15 * 1-5'', normalized = ''*/15 0 1,15 * 1-5'',
          minutes = [0, 15, 30, 45], hours = [0], days = [1, 15], months = [1..<13],
          dows = [1, 2, 3, 4, 5]\<rparr>"
  have h1: "Cron_new [] [] 0 (\<lambda>i. 0) ''*/15 0 1,15 * 1-5'' = Inr ?c"
    by code_simp
  have h2: "(2::nat) < 5" by simp
  have f: "split_on CHR '' '' (normalized ?c) ! 2 = ''1,15''" by code_simp
  have l: "lists_of ?c ! 2 = [1, 15]" by code_simp
  have e: "field_exact ''1,15''" by code_simp
  have w: "written_in_bounds 2 ''1,15''" by code_simp
  from parsed_lists_ascending[OF h1 h2, unfolded f l, OF e] h1 e w show ?thesis
    by simp
qed

text \<open>
  C4, as stated, is false. When fields are counted between runs of whitespace, the pattern
  \<^verbatim>\<open>0 0  * * *\<close>, with two spaces after the second field, has five fields, but
  \<^verbatim>\<open>split(' ')\<close> gives six parts, one of them empty, and the constructor throws
  \<^verbatim>\<open>Invalid Cron Provided\<close>. And \<^verbatim>\<open>next\<close> raises on an object that the constructor
  returned: the pattern \<^verbatim>\<open>0 0 * 0 *\<close> is accepted with the list of months \<open>[0]\<close>;
  no date has its month in that list, so every call of \<^verbatim>\<open>next\<close> calls \<^verbatim>\<open>next\<close> again, the
  recursion never returns, and on a call stack with room for 10000 calls it ends in the
  \<^verbatim>\<open>RangeError\<close> of the full stack.
\<close>

theorem six_parts_and_no_return:
  "normalize_cron [] [] 0 (\<lambda>i. 0) (toLowerCase ''0 0  * * *'') = Inr ''0 0  * * *''
   \<and> whitespace_fields ''0 0  * * *'' = [''0'', ''0'', ''*'', ''*'', ''*'']
   \<and> split_on CHR '' '' ''0 0  * * *'' = [''0'', ''0'', [], ''*'', ''*'', ''*'']
   \<and> Cron_new [] [] 0 (\<lambda>i. 0) ''0 0  * * *'' = Inl Invalid_Cron_Provided
   \<and> Cron_new [] [] 0 (\<lambda>i. 0) ''0 0 * 0 *'' =
       Inr \<lparr>cron = ''0 0 * 0 *'', normalized = ''0 0 * 0 *'', minutes = [0], hours = [0],
            days = [1..<32], months = [0], dows = [0..<7]\<rparr>
   \<and> next_date \<lparr>cron = ''0 0 * 0 *'', normalized = ''0 0 * 0 *'', minutes = [0], hours = [0],
            days = [1..<32], months = [0], dows = [0..<7]\<rparr> 1704067200000 True = None
   \<and> next_on_stack 10000 \<lparr>cron = ''0 0 * 0 *'', normalized = ''0 0 * 0 *'', minutes = [0],
            hours = [0], days = [1..<32], months = [0], dows = [0..<7]\<rparr> 1704067200000 True
       = Inl RangeError"
proof -
  let ?c = "\<lparr>cron = ''0 0 * 0 *'', normalized = ''0 0 * 0 *'', minutes = [0], hours = [0],
            days = [1..<32], months = [0], dows = [0..<7]\<rparr>"
  have 1: "normalize_cron [] [] 0 (\<lambda>i. 0) (toLowerCase ''0 0  * * *'') = Inr ''0 0  * * *''
   \<and> whitespace_fields ''0 0  * * *'' = [''0'', ''0'', ''*'', ''*'', ''*'']
   \<and> split_on CHR '' '' ''0 0  * * *'' = [''0'', ''0'', [], ''*'', ''*'', ''*'']
   \<and> Cron_new [] [] 0 (\<lambda>i. 0) ''0 0  * * *'' = Inl Invalid_Cron_Provided"
    by code_simp
  have 2: "Cron_new [] [] 0 (\<lambda>i. 0) ''0 0 * 0 *'' = Inr ?c" by code_simp
  have nf: "\<not> day_fits ?c z" for z by (simp add: day_fits_def)
  have 3: "next_date ?c 1704067200000 True = None" by (rule never_returns) (rule nf)
  have 4: "next_on_stack 10000 ?c 1704067200000 True = Inl RangeError"
    by (rule never_on_stack) (rule nf)
  from 1 2 3 4 show ?thesis by (intro conjI) simp_all
qed

text \<open>
  C4, amended: the constructor throws \<^verbatim>\<open>Invalid Cron Provided\<close> exactly when the pattern
  has a normal form that, cut at every single space, does not give 5 parts (every other
  error of the constructor is a \<^verbatim>\<open>TypeError\<close> or a \<^verbatim>\<open>RangeError\<close>). The constructor is a
  function into errors and objects, so its errors arise at construction. On every
  object, \<^verbatim>\<open>next(zDay, origin)\<close> returns when \<open>zDay\<close> is a valid date and, for some
  \<open>k\<close>, the moment \<open>k + 1\<close> days after \<open>zDay\<close> is a valid date whose day fits the lists
  of days, months and weekdays; it then raises no error on a call stack with room for
  more than \<open>k + 1\<close> calls.
\<close>

theorem construction_errors:
  "((Cron_new predefined tokens now rnd pattern = Inl Invalid_Cron_Provided)
      = (\<exists>n. normalize_cron predefined tokens now rnd (toLowerCase pattern) = Inr n
             \<and> length (split_on CHR '' '' n) \<noteq> 5))
   \<and> (- 8640000000000000 \<le> zDay \<and> zDay + int (Suc k) * day \<le> 8640000000000000
        \<and> day_fits c (zDay + int (Suc k) * day)
      \<longrightarrow> (\<exists>r. next_date c zDay origin = Some r
              \<and> (\<forall>n. Suc k < n \<longrightarrow> next_on_stack n c zDay origin = Inr r)))"
proof -
  have 1: "(Cron_new predefined tokens now rnd pattern = Inl Invalid_Cron_Provided)
      = (\<exists>n. normalize_cron predefined tokens now rnd (toLowerCase pattern) = Inr n
             \<and> length (split_on CHR '' '' n) \<noteq> 5)"
  proof (cases "normalize_cron predefined tokens now rnd (toLowerCase pattern)")
    case (Inl e)
    then have "Cron_new predefined tokens now rnd pattern = Inl e" by (simp add: Cron_new_def)
    moreover have "e = TypeError" using Inl by (rule normalize_error)
    ultimately show ?thesis using Inl by simp
  next
    case (Inr n)
    from Cron_new_structural[OF Inr] parseString_structural[of n] Inr show ?thesis by simp
  qed
  have 2: "\<exists>r. next_date c zDay origin = Some r
              \<and> (\<forall>n. Suc k < n \<longrightarrow> next_on_stack n c zDay origin = Inr r)"
    if "- 8640000000000000 \<le> zDay" and "zDay + int (Suc k) * day \<le> 8640000000000000"
      and "day_fits c (zDay + int (Suc k) * day)"
  proof -
    from returns_on_stack_origin[OF that(3,1,2), of origin]
    obtain r where r: "next_on_stack (Suc (Suc k)) c zDay origin = Inr r" by blast
    have "next_on_stack n c zDay origin = Inr r" if "Suc k < n" for n
      using next_on_stack_more[OF r, of n] that by simp
    with next_on_stack_sound[OF r] show ?thesis by blast
  qed
  from 1 2 show ?thesis by blast
qed

theorem construction_errors_witness:
  "normalize_cron [] [] 0 (\<lambda>i. 0) (toLowerCase ''0 0 * *'') = Inr ''0 0 * *''
   \<and> length (split_on CHR '' '' ''0 0 * *'') = 4
   \<and> Cron_new [] [] 0 (\<lambda>i. 0) ''0 0 * *'' = Inl Invalid_Cron_Provided
   \<and> Cron_new [] [] 0 (\<lambda>i. 0) ''0 0 * * *'' =
     Inr \<lparr>cron = ''0 0 * * *'', normalized = ''0 0 * * *'', minutes = [0], hours = [0],
          days = [1..<32], months = [1..<13], dows = [0..<7]\<rparr>
   \<and> (- 8640000000000000::int) \<le> 1704067200000
   \<and> 1704067200000 + int (Suc 0) * day \<le> 8640000000000000
   \<and> day_fits \<lparr>cron = ''0 0 * * *'', normalized = ''0 0 * * *'', minutes = [0], hours = [0],
          days = [1..<32], months = [1..<13], dows = [0..<7]\<rparr> (1704067200000 + int (Suc 0) * day)
   \<and> next_date \<lparr>cron = ''0 0 * * *'', normalized = ''0 0 * * *'', minutes = [0], hours = [0],
          days = [1..<32], months = [1..<13], dows = [0..<7]\<rparr> 1704067200000 True
       = Some (Date 1704153600000)
   \<and> next_on_stack 2 \<lparr>cron = ''0 0 * * *'', normalized = ''0 0 * * *'', minutes = [0], hours = [0],
          days = [1..<32], months = [1..<13], dows = [0..<7]\<rparr> 1704067200000 True
       = Inr (Date 1704153600000)"
proof -
  let ?c = "\<lparr>cron = ''0 0 * * *'', normalized = ''0 0 * * *'', minutes = [0], hours = [0],
          days = [1..<32], months = [1..<13], dows = [0..<7]\<rparr>"
  have a1: "normalize_cron [] [] 0 (\<lambda>i. 0) (toLowerCase ''0 0 * *'') = Inr ''0 0 * *''"
    by code_simp
  have a2: "length (split_on CHR '' '' ''0 0 * *'') = 4" by code_simp
  from a1 a2 have "\<exists>n. normalize_cron [] [] 0 (\<lambda>i. 0) (toLowerCase ''0 0 * *'') = Inr n
             \<and> length (split_on CHR '' '' n) \<noteq> 5" by simp
  with construction_errors[of "[]" "[]" 0 "\<lambda>i. 0" "''0 0 * *''"]
  have a3: "Cron_new [] [] 0 (\<lambda>i. 0) ''0 0 * *'' = Inl Invalid_Cron_Provided" by blast
  have h1: "Cron_new [] [] 0 (\<lambda>i. 0) ''0 0 * * *'' = Inr ?c" by code_simp
  have h2: "(- 8640000000000000::int) \<le> 1704067200000" by simp
  have h3: "1704067200000 + int (Suc 0) * day \<le> 8640000000000000" by (simp add: day_def)
  have h4: "day_fits ?c (1704067200000 + int (Suc 0) * day)" by code_simp
  have e: "next_date ?c 1704067200000 True = Some (Date 1704153600000)" by code_simp
  from construction_errors[of "[]" "[]" 0 "\<lambda>i. 0" "''0 0 * * *''" 1704067200000 0 ?c True]
    h2 h3 h4
  obtain r where r: "next_date ?c 1704067200000 True = Some r"
    and s: "\<forall>n. Suc 0 < n \<longrightarrow> next_on_stack n ?c 1704067200000 True = Inr r" by blast
  from r e have "r = Date 1704153600000" by simp
  with s have "next_on_stack 2 ?c 1704067200000 True = Inr (Date 1704153600000)" by simp
  with a1 a2 a3 h1 h2 h3 h4 e show ?thesis by (intro conjI)
qed

section \<open>The claims on \<^verbatim>\<open>next\<close>\<close>

text \<open>
  C9, at a failing input: the pattern \<^verbatim>\<open>0 0 * * *\<close> and the reference moment
  0050-01-01T00:00:00Z (-60589296000000). Its day fits, so the first day that fits at or
  after it is its own, and with the smallest hour 0 and the smallest minute 0 the claim
  gives the reference moment itself. A call of \<^verbatim>\<open>next\<close> that is not an origin call returns
  1950-01-01T00:00:00Z (-631152000000): the result is built by
  \<^verbatim>\<open>Date.UTC(zDay.getUTCFullYear(), ...)\<close>, and \<^verbatim>\<open>Date.UTC\<close> reads a year from 0 to 99
  as \<open>1900 + year\<close>.
\<close>

theorem next_not_origin_year_50:
  "Cron_new [] [] 0 (\<lambda>i. 0) ''0 0 * * *'' =
     Inr \<lparr>cron = ''0 0 * * *'', normalized = ''0 0 * * *'', minutes = [0], hours = [0],
          days = [1..<32], months = [1..<13], dows = [0..<7]\<rparr>
   \<and> day_fits \<lparr>cron = ''0 0 * * *'', normalized = ''0 0 * * *'', minutes = [0], hours = [0],
          days = [1..<32], months = [1..<13], dows = [0..<7]\<rparr> (- 60589296000000)
   \<and> getUTCFullYear (- 60589296000000) = 50
   \<and> next_date \<lparr>cron = ''0 0 * * *'', normalized = ''0 0 * * *'', minutes = [0], hours = [0],
          days = [1..<32], months = [1..<13], dows = [0..<7]\<rparr> (- 60589296000000) False
       = Some (Date (- 631152000000))
   \<and> getUTCFullYear (- 631152000000) = 1950"
  by code_simp

text \<open>
  C1, as stated, is false. For the pattern \<^verbatim>\<open>* * * * *\<close>, a valid schedule, and the
  reference moment 2024-01-01T10:10:30Z (1704103830000), an origin call returns 10:11:00
  (1704103860000), before the reference moment plus one minute, 10:11:30: \<^verbatim>\<open>next\<close> reads
  the hour and the minute of that moment and never its seconds, so the search starts at
  that moment cut to the whole minute.
\<close>

theorem next_origin_before_start:
  "valid_schedule \<lparr>cron = ''* * * * *'', normalized = ''* * * * *'', minutes = [0..<60],
          hours = [0..<24], days = [1..<32], months = [1..<13], dows = [0..<7]\<rparr>
   \<and> next_date \<lparr>cron = ''* * * * *'', normalized = ''* * * * *'', minutes = [0..<60],
          hours = [0..<24], days = [1..<32], months = [1..<13], dows = [0..<7]\<rparr>
       1704103830000 True
     = Some (Date 1704103860000)
   \<and> (1704103860000::int) < 1704103830000 + 60000
   \<and> search_start 1704103830000 = 1704103860000"
  by code_simp

text \<open>
  C1, amended: for every valid schedule and every reference moment \<open>t\<close> that is a valid
  date, when the day \<open>k + 1\<close> days after the day of \<open>t\<close> fits, lies before the last day
  of the range of dates, and the years from \<open>t\<close> to that day are outside 0 to 99, an
  origin call of \<^verbatim>\<open>next\<close> returns a time value of a whole minute whose minute, hour, day of
  the month, month and weekday are in the five lists. It is the smallest such time value
  at or after the start of the search, \<open>t\<close> plus one minute cut to the whole minute, when
  the day of \<open>t\<close> does not fit, or when it fits, \<open>t\<close> plus one minute is on the same
  day, and the hour of that moment is in the list of hours, or no hour of the list is
  at or after it, or no minute of the list is before the minute of that moment.
\<close>

theorem next_origin:
  assumes v: "valid_schedule this" and t: "in_reach t (t + int (Suc k) * day)"
    and l: "day_fits this (t + int (Suc k) * day)"
  shows "\<exists>r. next_date this t True = Some (Date r) \<and> fits this r
           \<and> (planned this t \<longrightarrow>
                 search_start t \<le> r \<and> (\<forall>u. fits this u \<and> search_start t \<le> u \<longrightarrow> r \<le> u))"
proof -
  note vd = valid_scheduleD[OF v]
  from later_day[OF v t l] obtain R where
    R1: "next_date this (t + day) False = Some (Date R)" and R2: "fits this R"
    and R3: "time_of (Day t + 1) 0 0 \<le> R" and R4: "\<And>u. fits this u \<Longrightarrow> Day t < Day u \<Longrightarrow> R \<le> u"
    by blast
  note ss = search_start_facts[of t]
  have tk: "t \<le> t + int (Suc k) * day" by (simp add: day_def)
  note rt = in_reachD[OF t order_refl tk]
  have now_ok: "time_ok (t + 60000)" using t by (simp add: in_reach_def time_ok_def day_def)
  have ssR: "search_start t \<le> R" using ss(4) R3 by simp
  define H where "H = getUTCHours (t + 60000)"
  define M where "M = getUTCMinutes (t + 60000)"
  define m0 where "m0 = hd (minutes this)"
  have m0: "m0 \<in> set (minutes this)" "m0 \<le> 59" and am0: "at (minutes this) 0 = Some m0"
    using vd at_0[OF vd(5)] unfolding m0_def by simp_all
  have m0le: "m0 \<le> getUTCMinutes u" if "fits this u" for u
    unfolding m0_def using sorted_wrt_less_hd[OF vd(4)] that by (simp add: fits_def)
  \<comment> \<open>the result is that of the following days\<close>
  have later: ?thesis
    if n: "next_date this t True = next_date this (t + day) False"
      and sd: "\<And>u. planned this t \<Longrightarrow> fits this u \<Longrightarrow> search_start t \<le> u \<Longrightarrow> Day u \<noteq> Day t"
  proof -
    have "R \<le> u" if "planned this t" "fits this u" "search_start t \<le> u" for u
    proof -
      have "Day t \<le> Day u" using fits_after_start(1)[OF that(2,3)] .
      with sd[OF that] have "Day t < Day u" by simp
      with that(2) show ?thesis by (rule R4)
    qed
    with n R1 R2 ssR show ?thesis by auto
  qed
  \<comment> \<open>the result is on the day of the reference moment\<close>
  have today: ?thesis
    if n: "next_date this t True = Some (new_Date_UTC t (Some h) (Some mi))"
      and f: "day_fits this t" and h: "h \<in> set (hours this)" and mi: "mi \<in> set (minutes this)"
      and st: "planned this t \<Longrightarrow> H < h \<or> (H = h \<and> M \<le> mi)"
      and mn: "\<And>u. planned this t \<Longrightarrow> fits this u \<Longrightarrow> search_start t \<le> u \<Longrightarrow> Day u = Day t
                  \<Longrightarrow> h < getUTCHours u \<or> (h = getUTCHours u \<and> mi \<le> getUTCMinutes u)"
    for h mi
  proof -
    have hb: "h \<le> 23" and mb: "mi \<le> 59" using vd h mi by simp_all
    note ft = fits_time_of[OF f rt(4) h mi hb mb rt(1,2)]
    define r where "r = time_of (Day t) h mi"
    have 1: "next_date this t True = Some (Date r)" using n ft(1) unfolding r_def by simp
    have 2: "fits this r" using ft(2) unfolding r_def .
    have 3: "search_start t \<le> r" if p: "planned this t"
    proof -
      from p f have D: "Day (t + 60000) = Day t" by (simp add: planned_def)
      show ?thesis
        unfolding ss(3) r_def D
        using time_of_le[OF getUTCHours_le getUTCMinutes_le hb mb, of "Day t" "t + 60000" "t + 60000" "Day t"]
          st[OF p] unfolding H_def M_def by simp
    qed
    have 4: "r \<le> u" if p: "planned this t" and u: "fits this u" and su: "search_start t \<le> u" for u
    proof -
      have "Day t \<le> Day u" using fits_after_start(1)[OF u su] .
      then have "Day t < Day u \<or> Day t = Day u" by auto
      then show ?thesis
      proof
        assume "Day t < Day u"
        then show ?thesis unfolding r_def using time_of_le_fits[OF u hb mb] by simp
      next
        assume D: "Day t = Day u"
        from mn[OF p u su D[symmetric]] D show ?thesis
          unfolding r_def using time_of_le_fits[OF u hb mb] by simp
      qed
    qed
    from 1 2 3 4 show ?thesis by blast
  qed
  \<comment> \<open>a fitting time of the same day that is not before the start of the search\<close>
  have same: "H < getUTCHours u \<or> (H = getUTCHours u \<and> M \<le> getUTCMinutes u)"
    if "planned this t" "day_fits this t" "fits this u" "search_start t \<le> u" "Day u = Day t" for u
  proof -
    from that(1,2) have "Day (t + 60000) = Day t" by (simp add: planned_def)
    with that(5) have "Day u = Day (t + 60000)" by simp
    from fits_after_start(2)[OF that(3,4) this] show ?thesis unfolding H_def M_def .
  qed
  show ?thesis
  proof (cases "day_fits this t")
    case False
    have n: "next_date this t True = next_date this (t + day) False"
      using next_date_skip[OF rt(3) False] .
    show ?thesis
    proof (rule later[OF n])
      fix u assume "fits this u"
      then have "day_fits this u" by (simp add: fits_def)
      with False day_fits_cong[of u t this] show "Day u \<noteq> Day t" by auto
    qed
  next
    case fit: True
    show ?thesis
    proof (cases "findIndex (\<lambda>hr. hr \<ge> H) (hours this)")
      case None
      have n: "next_date this t True = next_date this (t + day) False"
        by (subst next_date.simps) (use fit None rt(3) now_ok in \<open>simp add: H_def next_body_def\<close>)
      show ?thesis
      proof (rule later[OF n])
        fix u assume p: "planned this t" and u: "fits this u" and su: "search_start t \<le> u"
        show "Day u \<noteq> Day t"
        proof
          assume "Day u = Day t"
          from same[OF p fit u su this] have "H \<le> getUTCHours u" by auto
          moreover have "getUTCHours u \<in> set (hours this)" using u by (simp add: fits_def)
          ultimately show False using findIndex_None[OF None] by auto
        qed
      qed
    next
      case (Some hi)
      note hi = findIndex_Some[OF Some]
      define hf where "hf = hours this ! hi"
      have hf: "hf \<in> set (hours this)" "H \<le> hf" and ahf: "at (hours this) hi = Some hf"
        using hi unfolding hf_def by (simp_all add: at_def)
      have pl: "hf = H \<or> (\<forall>m \<in> set (minutes this). M \<le> m)" if p: "planned this t"
      proof -
        from p fit have "H \<in> set (hours this) \<or> list_all (\<lambda>h. h < H) (hours this)
            \<or> list_all (\<lambda>m. M \<le> m) (minutes this)"
          by (simp add: planned_def H_def M_def)
        then consider "H \<in> set (hours this)" | "list_all (\<lambda>h. h < H) (hours this)"
          | "list_all (\<lambda>m. M \<le> m) (minutes this)" by blast
        then show ?thesis
        proof cases
          case 1
          from first_ge_least[OF vd(1) Some 1] hf(2) show ?thesis unfolding hf_def by simp
        next
          case 2
          with hf show ?thesis by (auto simp: list_all_iff)
        next
          case 3
          then show ?thesis by (simp add: list_all_iff)
        qed
      qed
      show ?thesis
      proof (cases "findIndex (\<lambda>mi. mi \<ge> M) (minutes this)")
        case mNone: None
        have nomin: "\<not> M \<le> getUTCMinutes u" if "fits this u" for u
          using findIndex_None[OF mNone] that by (auto simp: fits_def)
        have hfH: "hf = H" if p: "planned this t"
          using pl[OF p] findIndex_None[OF mNone] m0(1) by auto
        show ?thesis
        proof (cases "at (hours this) (hi + 1)")
          case None
          have n: "next_date this t True = next_date this (t + day) False"
            by (subst next_date.simps)
               (use fit Some mNone None rt(3) now_ok in \<open>simp add: H_def M_def next_body_def\<close>)
          show ?thesis
          proof (rule later[OF n])
            fix u assume p: "planned this t" and u: "fits this u" and su: "search_start t \<le> u"
            show "Day u \<noteq> Day t"
            proof
              assume "Day u = Day t"
              from same[OF p fit u su this] nomin[OF u] have "H < getUTCHours u" by auto
              then have "hours this ! hi < getUTCHours u" using hfH[OF p] unfolding hf_def by simp
              moreover have "getUTCHours u \<in> set (hours this)" using u by (simp add: fits_def)
              ultimately have "Suc hi < length (hours this)"
                using next_elem[OF vd(1) hi[THEN conjunct1]] by blast
              with None show False by (simp add: at_def)
            qed
          qed
        next
          case (Some h2)
          then have h2: "Suc hi < length (hours this)" "h2 = hours this ! Suc hi"
            by (auto simp: at_def split: if_splits)
          then have h2s: "h2 \<in> set (hours this)" by simp
          have lt: "hf < h2"
            using vd(1) h2 unfolding hf_def by (simp add: sorted_wrt_iff_nth_less)
          have n: "next_date this t True = Some (new_Date_UTC t (Some h2) (Some m0))"
            by (subst next_date.simps)
               (use fit \<open>findIndex _ (hours this) = Some hi\<close> mNone Some am0 rt(3) now_ok
                 in \<open>simp add: H_def M_def next_body_def\<close>)
          show ?thesis
          proof (rule today[OF n fit h2s m0(1)])
            assume "planned this t"
            from hfH[OF this] lt show "H < h2 \<or> (H = h2 \<and> M \<le> m0)" by simp
          next
            fix u assume p: "planned this t" and u: "fits this u" and su: "search_start t \<le> u"
              and D: "Day u = Day t"
            from same[OF p fit u su D] nomin[OF u] have "H < getUTCHours u" by auto
            then have "hours this ! hi < getUTCHours u" using hfH[OF p] unfolding hf_def by simp
            moreover have "getUTCHours u \<in> set (hours this)" using u by (simp add: fits_def)
            ultimately have "h2 \<le> getUTCHours u"
              using next_elem[OF vd(1) hi[THEN conjunct1]] h2(2) by blast
            with m0le[OF u]
            show "h2 < getUTCHours u \<or> (h2 = getUTCHours u \<and> m0 \<le> getUTCMinutes u)" by auto
          qed
        qed
      next
        case mSome: (Some mi)
        note mi = findIndex_Some[OF mSome]
        define mf where "mf = minutes this ! mi"
        have mf: "mf \<in> set (minutes this)" "M \<le> mf" and amf: "at (minutes this) mi = Some mf"
          using mi unfolding mf_def by (simp_all add: at_def)
        have n: "next_date this t True = Some (new_Date_UTC t (Some hf) (Some mf))"
          by (subst next_date.simps)
             (use fit Some mSome ahf amf rt(3) now_ok in \<open>simp add: H_def M_def next_body_def\<close>)
        show ?thesis
        proof (rule today[OF n fit hf(1) mf(1)])
          assume "planned this t"
          from hf(2) mf(2) show "H < hf \<or> (H = hf \<and> M \<le> mf)" by auto
        next
          fix u assume p: "planned this t" and u: "fits this u" and su: "search_start t \<le> u"
            and D: "Day u = Day t"
          have hu: "getUTCHours u \<in> set (hours this)"
            and mu: "getUTCMinutes u \<in> set (minutes this)" using u by (simp_all add: fits_def)
          note sm = same[OF p fit u su D]
          then have "H \<le> getUTCHours u" by auto
          from first_ge_least[OF vd(1) Some hu this] have hle: "hf \<le> getUTCHours u"
            unfolding hf_def .
          have "mf \<le> getUTCMinutes u" if e: "hf = getUTCHours u"
          proof -
            have "M \<le> getUTCMinutes u"
            proof (cases "H = getUTCHours u")
              case True
              with sm show ?thesis by auto
            next
              case False
              with e pl[OF p] mu show ?thesis by auto
            qed
            from first_ge_least[OF vd(4) mSome mu this] show ?thesis unfolding mf_def .
          qed
          with hle show "hf < getUTCHours u \<or> (hf = getUTCHours u \<and> mf \<le> getUTCMinutes u)"
            by auto
        qed
      qed
    qed
  qed
qed

theorem next_origin_witness:
  "valid_schedule \<lparr>cron = ''30 9 * * *'', normalized = ''30 9 * * *'', minutes = [30], hours = [9],
          days = [1..<32], months = [1..<13], dows = [0..<7]\<rparr>
   \<and> in_reach 1704100200000 (1704100200000 + int (Suc 0) * day)
   \<and> day_fits \<lparr>cron = ''30 9 * * *'', normalized = ''30 9 * * *'', minutes = [30], hours = [9],
          days = [1..<32], months = [1..<13], dows = [0..<7]\<rparr> (1704100200000 + int (Suc 0) * day)
   \<and> planned \<lparr>cron = ''30 9 * * *'', normalized = ''30 9 * * *'', minutes = [30], hours = [9],
          days = [1..<32], months = [1..<13], dows = [0..<7]\<rparr> 1704100200000
   \<and> next_date \<lparr>cron = ''30 9 * * *'', normalized = ''30 9 * * *'', minutes = [30], hours = [9],
          days = [1..<32], months = [1..<13], dows = [0..<7]\<rparr> 1704100200000 True
       = Some (Date 1704101400000)
   \<and> fits \<lparr>cron = ''30 9 * * *'', normalized = ''30 9 * * *'', minutes = [30], hours = [9],
          days = [1..<32], months = [1..<13], dows = [0..<7]\<rparr> 1704101400000
   \<and> search_start 1704100200000 \<le> 1704101400000
   \<and> fits \<lparr>cron = ''30 9 * * *'', normalized = ''30 9 * * *'', minutes = [30], hours = [9],
          days = [1..<32], months = [1..<13], dows = [0..<7]\<rparr> 1704187800000
   \<and> search_start 1704100200000 \<le> 1704187800000
   \<and> (1704101400000::int) \<le> 1704187800000"
proof -
  let ?c = "\<lparr>cron = ''30 9 * * *'', normalized = ''30 9 * * *'', minutes = [30], hours = [9],
          days = [1..<32], months = [1..<13], dows = [0..<7]\<rparr>"
  have h1: "valid_schedule ?c" by code_simp
  have h2: "in_reach 1704100200000 (1704100200000 + int (Suc 0) * day)" by code_simp
  have h3: "day_fits ?c (1704100200000 + int (Suc 0) * day)" by code_simp
  have p: "planned ?c 1704100200000" by code_simp
  have e: "next_date ?c 1704100200000 True = Some (Date 1704101400000)" by code_simp
  have fu: "fits ?c 1704187800000" by code_simp
  have su: "search_start 1704100200000 \<le> 1704187800000" by code_simp
  from next_origin[OF h1 h2 h3] obtain r where
    r: "next_date ?c 1704100200000 True = Some (Date r)" and fr: "fits ?c r"
    and m: "planned ?c 1704100200000 \<longrightarrow> search_start 1704100200000 \<le> r
          \<and> (\<forall>u. fits ?c u \<and> search_start 1704100200000 \<le> u \<longrightarrow> r \<le> u)"
    by blast
  from r e have req: "r = 1704101400000" by simp
  from m p fu su have "search_start 1704100200000 \<le> r" and "r \<le> 1704187800000" by blast+
  with h1 h2 h3 p e fr fu su show ?thesis unfolding req by (intro conjI)
qed

end
